theory Spec2Isabelle
  imports Complex_Main "HOL-Library.Word"
begin

unbundle bit_operations_syntax

section \<open>Data model\<close>

text \<open>
  Modelled from the spec: the base symbol. The packed sequence containers of the contig
  and read packages are not part of \<^verbatim>\<open>iterate_edges.cpp\<close>; the spec fixes a base as a
  2-bit value (A=0, C=1, G=2, T=3), and \<^verbatim>\<open>dna_map\<close> only ever produces 0..3.
  \<^verbatim>\<open>3 - c\<close> is the complement.
\<close>

type_synonym base = "2 word"

text \<open>
  Modelled from the spec: the k-mer value \<^verbatim>\<open>Kmer\<close> of the header
  that is not part of this file. A k-mer of size \<open>n\<close> is the list of its \<open>n\<close> bases,
  leftmost first. \<open>ShiftAppend\<close> appends on the right and discards the leftmost base,
  \<open>ShiftPreappend\<close> prepends on the left and discards the rightmost base,
  \<open>ReverseComplement\<close> reverses and maps each base to \<open>3 - base\<close>, \<open>resize\<close> keeps the
  leftmost bases (new positions are zero), and the order is lexicographic.
\<close>

type_synonym kmer = "base list"

definition Kmer :: "nat \<Rightarrow> kmer" where
  "Kmer k = replicate k 0"

definition ShiftAppend :: "base \<Rightarrow> kmer \<Rightarrow> kmer" where
  "ShiftAppend c km = (if km = [] then [] else tl km @ [c])"

definition ShiftPreappend :: "base \<Rightarrow> kmer \<Rightarrow> kmer" where
  "ShiftPreappend c km = (if km = [] then [] else c # butlast km)"

definition ReverseComplement :: "kmer \<Rightarrow> kmer" where
  "ReverseComplement km = map (\<lambda>c. 3 - c) (rev km)"

definition resize :: "nat \<Rightarrow> kmer \<Rightarrow> kmer" where
  "resize n km = take n km @ replicate (n - length km) 0"

fun kmer_less :: "kmer \<Rightarrow> kmer \<Rightarrow> bool" where
  "kmer_less [] [] = False"
| "kmer_less [] (y # ys) = True"
| "kmer_less (x # xs) [] = False"
| "kmer_less (x # xs) (y # ys) = (x < y \<or> (x = y \<and> kmer_less xs ys))"

text \<open>
  Modelled from the spec: \<^verbatim>\<open>multi_t\<close> is a 16-bit counter and
  \<^verbatim>\<open>kMaxMulti_t = MULTI_MAX = 65535\<close> (both live in \<^verbatim>\<open>definitions.h\<close>).
\<close>

type_synonym multi_t = "16 word"

definition kMaxMulti_t :: "multi_t" where
  "kMaxMulti_t = 65535"

text \<open>Everything that aborts the run, or that C++ leaves undefined, is an error value.\<close>

datatype error =
    IndexOutOfBounds
  | ShiftOutOfRange
  | AssertFailed
  | ConversionOutOfRange

text \<open>
  One \<^verbatim>\<open>fwrite\<close> to \<^verbatim>\<open>edges.0\<close>: a header word (lines 312 and 313) or the
  \<^verbatim>\<open>kWordsPerEdge\<close> words of one packed edge (lines 357, 370, 585). The byte stream
  of the file is the concatenation of the words written.
\<close>

datatype fwrite = HeaderWord "32 word" | EdgeWords "32 word list"

fun words_of :: "fwrite \<Rightarrow> 32 word list" where
  "words_of (HeaderWord w) = [w]"
| "words_of (EdgeWords ws) = ws"

definition stream_of :: "fwrite list \<Rightarrow> 32 word list" where
  "stream_of ws = concat (map words_of ws)"

fun is_header :: "fwrite \<Rightarrow> bool" where
  "is_header (HeaderWord w) = True"
| "is_header (EdgeWords ws) = False"

text \<open>
  A contig of a package: its bases and the multiplicity read from the multiplicity
  file. The type of the multiplicity is left open: it is only ever handed to the
  conversion of lines 325 to 339.
\<close>

record 'm contig =
  seq :: "base list"
  multiplicity :: 'm

text \<open>
  The state shared by the passes (\<^verbatim>\<open>IterateGlobalData\<close>), with the two output files.
  A filtered read is written in its packed form, which is opaque here: the model writes
  the read itself. \<open>increment_log\<close> is a ghost field: the keys handed to
  \<^verbatim>\<open>get_ref_with_lock\<close>, in the order of the increments.
\<close>

record globals =
  crusial_kmers :: "kmer \<rightharpoonup> 64 word"
  iterative_edges :: "kmer \<rightharpoonup> multi_t"
  output_edge_file :: "fwrite list"
  output_read_file :: "base list list"
  increment_log :: "kmer list"

section \<open>ParseOptions\<close>

text \<open>
  The options. An \<^verbatim>\<open>int\<close> option is a 32-bit word, read as a signed number by \<open>sint\<close>.
\<close>

record Options =
  contigs_file :: string
  contigs_multi_file :: string
  addi_contig_file :: string
  addi_multi_file :: string
  read_file :: string
  read_format :: string
  num_cpu_threads :: "32 word"
  kmer_k :: "32 word"
  step :: "32 word"
  max_read_len :: "32 word"
  output_prefix :: string

text \<open>The decimal digits of a number, as \<^verbatim>\<open>operator<<\<close> prints it.\<close>

function decimal :: "nat \<Rightarrow> string" where
  "decimal n = (if n < 10 then [char_of (48 + n)]
                else decimal (n div 10) @ [char_of (48 + n mod 10)])"
  by pat_completeness auto

termination decimal
  by (relation "measure id") auto

declare decimal.simps [simp del]

text \<open>
  \<open>ParseOptions\<close> after \<^verbatim>\<open>desc.Parse\<close> has filled the record. \<open>max_size\<close> is
  \<^verbatim>\<open>Kmer<KMER_NUM_UINT64>::max_size()\<close> and \<open>omp_max\<close> is \<^verbatim>\<open>omp_get_max_threads()\<close>,
  both defined outside this file. The first test adds two \<^verbatim>\<open>int\<close>s, an addition of
  32-bit words that wraps, and compares the sum with the capacity converted to
  \<^verbatim>\<open>int\<close>; the message prints the capacity itself. \<open>Inl msg\<close> is the branch that prints
  \<open>msg\<close> and the usage summary to the error stream and calls \<^verbatim>\<open>exit(1)\<close>.
\<close>

definition ParseOptions :: "nat \<Rightarrow> 32 word \<Rightarrow> Options \<Rightarrow> string + Options" where
  "ParseOptions max_size omp_max options =
     (if sint (step options + kmer_k options) \<ge> sint (of_nat max_size :: 32 word)
      then Inl (''kmer_k + step must less than '' @ decimal max_size)
      else if contigs_file options = '''' then Inl ''No contig file!''
      else if contigs_multi_file options = '''' then Inl ''No contig's multiplicity file!''
      else if read_file options = '''' then Inl ''No reads file!''
      else if sint (kmer_k options) \<le> 0 then Inl ''Invalid kmer size!''
      else if sint (step options) \<le> 0 then Inl ''Invalid step size!''
      else if output_prefix options = '''' then Inl ''No output prefix!''
      else if read_format options \<noteq> ''binary'' \<and> read_format options \<noteq> ''fasta''
              \<and> read_format options \<noteq> ''fastq'' then Inl ''Invalid read format!''
      else if max_read_len options = 0 then Inl ''Invalid max read length!''
      else if num_cpu_threads options = 0 then Inr (options\<lparr>num_cpu_threads := omp_max\<rparr>)
      else Inr options)"

section \<open>Double-precision arithmetic\<close>

text \<open>
  Lines 325 to 338 compute in \<^verbatim>\<open>double\<close>. A double is modelled by the rational number it
  denotes, and an arithmetic operation on doubles by the exact operation followed by
  \<open>round_double\<close>: rounding to the nearest number with a significand of 53 bits, a tie
  going to the even significand (IEEE 754 binary64 in its default rounding mode). The
  range of the exponent is not modelled. The conversion of an \<^verbatim>\<open>int\<close> to \<^verbatim>\<open>double\<close>
  is exact.
\<close>

text \<open>The number of binary digits of a positive integer.\<close>

function bits :: "int \<Rightarrow> nat" where
  "bits n = (if n \<le> 0 then 0 else Suc (bits (n div 2)))"
  by pat_completeness auto

termination bits
  by (relation "measure nat") auto

declare bits.simps [simp del]

definition pow2 :: "int \<Rightarrow> rat" where
  "pow2 e = (if 0 \<le> e then 2 ^ nat e else 1 / 2 ^ nat (- e))"

text \<open>For \<open>x > 0\<close>, the exponent \<open>n\<close> with \<open>pow2 n \<le> x < pow2 (n + 1)\<close>.\<close>

definition ilog2 :: "rat \<Rightarrow> int" where
  "ilog2 x = (if 1 \<le> x then int (bits \<lfloor>x\<rfloor>) - 1 else - int (bits (\<lceil>1 / x\<rceil> - 1)))"

text \<open>The nearest integer, a tie going to the even one.\<close>

definition round_even :: "rat \<Rightarrow> int" where
  "round_even y =
     (let f = \<lfloor>y\<rfloor>; d = y - of_int f
      in if d < 1 / 2 then f else if 1 / 2 < d then f + 1 else if even f then f else f + 1)"

definition round_double :: "rat \<Rightarrow> rat" where
  "round_double x =
     (if x = 0 then 0
      else let e = ilog2 \<bar>x\<bar> - 52
           in sgn x * of_int (round_even (\<bar>x\<bar> / pow2 e)) * pow2 e)"

text \<open>
  \<^verbatim>\<open>int(x)\<close>: the fractional part is discarded; the conversion is undefined when the
  result is not an \<^verbatim>\<open>int\<close>.
\<close>

definition int_of_double :: "rat \<Rightarrow> error + int" where
  "int_of_double x =
     (let t = (if 0 \<le> x then \<lfloor>x\<rfloor> else \<lceil>x\<rceil>)
      in if - (2 ^ 31) \<le> t \<and> t < 2 ^ 31 then Inr t else Inl ConversionOutOfRange)"

section \<open>ReadContigsAndBuildHash\<close>

subsection \<open>Crucial k-mers and their hints (lines 276 to 307)\<close>

text \<open>
  The hint loop \<^verbatim>\<open>for (j = 0; j < step && j < s_length; ++j) s_seq |= uint64_t(c) << (31 - j) * 2\<close>
  followed by \<^verbatim>\<open>s_seq |= s_length\<close>. \<open>get j\<close> is the base the loop reads at step \<open>j\<close>.
  For \<open>j > 31\<close> the shift count is negative, which C++ leaves undefined: the loop reaches
  such a \<open>j\<close> exactly when \<open>min step s_length > 32\<close>.
\<close>

definition build_hint :: "(nat \<Rightarrow> base) \<Rightarrow> nat \<Rightarrow> nat \<Rightarrow> error + 64 word" where
  "build_hint get stp s_length =
     (if min stp s_length > 32 then Inl ShiftOutOfRange
      else Inr (fold (\<lambda>j s_seq. s_seq OR push_bit ((31 - j) * 2) (ucast (get j)))
                  [0..<min stp s_length] 0
                OR of_nat s_length))"

text \<open>The body of the parallel loop of lines 277 to 307 for one contig.\<close>

definition seed_contig ::
  "nat \<Rightarrow> nat \<Rightarrow> base list \<Rightarrow> (kmer \<rightharpoonup> 64 word) \<Rightarrow> error + (kmer \<rightharpoonup> 64 word)" where
  "seed_contig k stp cs m =
     (if length cs < k then Inr m
      else
        let km = fold (\<lambda>j km. ShiftAppend (cs ! j) km) [0..<k] (Kmer k);
            s_length = min stp (length cs - k)
        in case build_hint (\<lambda>j. cs ! (j + k)) stp s_length of
             Inl e \<Rightarrow> Inl e
           | Inr s_seq \<Rightarrow>
               let m1 = m(km \<mapsto> s_seq) in
               if length cs > k then
                 let km2 = fold (\<lambda>j km. ShiftAppend (3 - cs ! (length cs - 1 - j)) km) [0..<k] km
                 in case build_hint (\<lambda>j. 3 - cs ! (length cs - k - 1 - j)) stp s_length of
                      Inl e \<Rightarrow> Inl e
                    | Inr s_seq2 \<Rightarrow> Inr (m1(km2 \<mapsto> s_seq2))
               else Inr m1)"

fun seed_package ::
  "nat \<Rightarrow> nat \<Rightarrow> 'm contig list \<Rightarrow> (kmer \<rightharpoonup> 64 word) \<Rightarrow> error + (kmer \<rightharpoonup> 64 word)" where
  "seed_package k stp [] m = Inr m"
| "seed_package k stp (c # cs) m =
     (case seed_contig k stp (seq c) m of
        Inl e \<Rightarrow> Inl e
      | Inr m' \<Rightarrow> seed_package k stp cs m')"

subsection \<open>The multiplicity of the edges (lines 325 to 339)\<close>

text \<open>
  The conversion of the multiplicity from \<open>k\<close> to \<open>k + s + 1\<close>, with every rounding of
  the double arithmetic in the order of the source. The result of \<^verbatim>\<open>std::min\<close> is
  an \<^verbatim>\<open>int\<close>, which the assignment converts to \<^verbatim>\<open>uint16_t\<close>. The \<^verbatim>\<open>int\<close> quantities
  are computed without wrap-around, as they are for \<open>k > 0\<close> and a contig of length
  \<open>k + s + 1 \<le> L < 2\<^sup>3\<^sup>1\<close>: each of them then lies between 0 and \<open>L\<close>.
\<close>

definition convert_multiplicity :: "nat \<Rightarrow> nat \<Rightarrow> nat \<Rightarrow> rat \<Rightarrow> error + multi_t" where
  "convert_multiplicity k stp seq_length multiplicity_prev =
     (let next_k = int k + int stp;
          num_kmer = int seq_length - int k + 1;
          num_nextk1 = int seq_length - (next_k + 1) + 1;
          internal_max = min (next_k + 1 - int k + 1) num_nextk1;
          num_external = internal_max - 1;
          num_internal = num_kmer - num_external * 2;
          exp_num_kmer =
            round_double
              (round_double
                 (round_double (of_int num_external * of_int (num_external + 1)) /
                    of_int (next_k + 1 - int k + 1))
               + round_double
                   (round_double (of_int internal_max / of_int (next_k + 1 - int k + 1)) *
                      of_int num_internal));
          exp_num_kmer2 = round_double (exp_num_kmer * multiplicity_prev)
      in case int_of_double
                (round_double
                   (round_double
                      (round_double (round_double (exp_num_kmer2 * of_int (int k)) /
                         of_int (next_k + 1)) /
                       of_int num_nextk1)
                    + 1 / 2)) of
           Inl e \<Rightarrow> Inl e
         | Inr t \<Rightarrow> Inr (of_int (min t (uint kMaxMulti_t))))"

text \<open>
  The conversion for a contig of a package. Line 325 reads the stored multiplicity into
  a \<^verbatim>\<open>double\<close>; the contig holds the number that double denotes.
\<close>

definition conversion :: "nat \<Rightarrow> nat \<Rightarrow> rat contig \<Rightarrow> error + multi_t" where
  "conversion k stp c = convert_multiplicity k stp (length (seq c)) (multiplicity c)"

subsection \<open>Packed edges (lines 317 to 371)\<close>

definition kWordsPerEdge :: "nat \<Rightarrow> nat \<Rightarrow> nat" where
  "kWordsPerEdge k stp = ((k + stp + 1) * 2 + 16 + 31) div 32"

definition last_shift :: "nat \<Rightarrow> nat" where
  "last_shift next_k =
     (let ls = (next_k + 1) mod 16 in (if ls = 0 then 0 else 16 - ls) * 2)"

text \<open>
  One round of the loop of lines 345 to 353; the state is \<open>(w, end_word, packed_edge)\<close>.
  \<open>get p\<close> is the base the round reads at position \<open>p\<close>.
\<close>

definition pack_step ::
  "(nat \<Rightarrow> base) \<Rightarrow> nat \<Rightarrow> nat \<Rightarrow> 32 word \<times> nat \<times> 32 word list \<Rightarrow> 32 word \<times> nat \<times> 32 word list" where
  "pack_step get next_k j st =
     (case st of (w, end_word, packed_edge) \<Rightarrow>
        let w' = push_bit 2 w OR ucast (get (next_k - j)) in
        if (j + 1) mod 16 = 0 then (0, end_word + 1, packed_edge[end_word := w'])
        else (w', end_word, packed_edge))"

text \<open>Lines 341 to 354: \<^verbatim>\<open>memset\<close>, the loop, and the last partial word.\<close>

definition pack_bases :: "(nat \<Rightarrow> base) \<Rightarrow> nat \<Rightarrow> nat \<Rightarrow> 32 word list" where
  "pack_bases get next_k W =
     (case fold (pack_step get next_k) [0..<next_k + 1] (0, 0, replicate W 0) of
        (w, end_word, packed_edge) \<Rightarrow> packed_edge[end_word := push_bit (last_shift next_k) w])"

text \<open>The first edge of a contig (lines 341 to 355).\<close>

definition first_edge :: "base list \<Rightarrow> nat \<Rightarrow> nat \<Rightarrow> multi_t \<Rightarrow> 32 word list" where
  "first_edge cs next_k W mult =
     (let packed_edge = pack_bases (\<lambda>p. cs ! p) next_k W
      in packed_edge[W - 1 := packed_edge ! (W - 1) OR ucast mult])"

text \<open>The loop of lines 362 to 365, from the last word down to word 1.\<close>

definition shift_words :: "nat \<Rightarrow> 32 word list \<Rightarrow> 32 word list" where
  "shift_words W packed_edge =
     fold (\<lambda>k pe. pe[k := drop_bit 2 (pe ! k) OR push_bit 30 (pe ! (k - 1))]) (rev [1..<W]) packed_edge"

text \<open>One round of the sliding loop (lines 360 to 369), with its assertion.\<close>

definition slide_edge ::
  "nat \<Rightarrow> nat \<Rightarrow> multi_t \<Rightarrow> base \<Rightarrow> 32 word list \<Rightarrow> error + 32 word list" where
  "slide_edge next_k W mult c packed_edge =
     (let pe1 = packed_edge[W - 1 := packed_edge ! (W - 1) XOR ucast mult];
          pe2 = pe1[next_k div 16 :=
                      pe1 ! (next_k div 16) AND NOT (push_bit ((15 - next_k mod 16) * 2) 3)];
          pe3 = shift_words W pe2;
          pe4 = pe3[0 := drop_bit 2 (pe3 ! 0)];
          pe5 = pe4[0 := pe4 ! 0 OR push_bit 30 (ucast c)]
      in if pe5 ! (W - 1) AND ucast kMaxMulti_t \<noteq> 0 then Inl AssertFailed
         else Inr (pe5[W - 1 := pe5 ! (W - 1) OR ucast mult]))"

text \<open>
  The sliding loop \<^verbatim>\<open>for (j = next_k + 1; j < length; ++j)\<close>: the list argument holds the
  bases \<^verbatim>\<open>CharAt(i, j)\<close> still to come; the result is the edges written, in order.
\<close>

fun slide_all ::
  "nat \<Rightarrow> nat \<Rightarrow> multi_t \<Rightarrow> 32 word list \<Rightarrow> base list \<Rightarrow> error + 32 word list list" where
  "slide_all next_k W mult packed_edge [] = Inr []"
| "slide_all next_k W mult packed_edge (c # cs) =
     (case slide_edge next_k W mult c packed_edge of
        Inl e \<Rightarrow> Inl e
      | Inr pe' \<Rightarrow>
          (case slide_all next_k W mult pe' cs of
             Inl e \<Rightarrow> Inl e
           | Inr out \<Rightarrow> Inr (pe' # out)))"

text \<open>
  The edges of one contig of length at least \<open>next_k + 1\<close> (lines 341 to 371). \<open>mult\<close> is
  the \<^verbatim>\<open>uint16_t multiplicity\<close> that lines 325 to 339 compute.
\<close>

definition contig_edges ::
  "nat \<Rightarrow> nat \<Rightarrow> base list \<Rightarrow> multi_t \<Rightarrow> error + 32 word list list" where
  "contig_edges k stp cs mult =
     (let next_k = k + stp; W = kWordsPerEdge k stp;
          e0 = first_edge cs next_k W mult
      in case slide_all next_k W mult e0 (drop (next_k + 1) cs) of
           Inl e \<Rightarrow> Inl e
         | Inr out \<Rightarrow> Inr (e0 # out))"

text \<open>
  One round of the loop of lines 320 to 372: a contig shorter than \<open>next_k + 1\<close> is
  skipped, any other contig has its multiplicity converted and its edges written.
  \<open>conv\<close> is the conversion of lines 325 to 339 applied to the contig; in the program it
  is \<open>conversion k stp\<close>.
\<close>

definition contig_pass ::
  "('m contig \<Rightarrow> error + multi_t) \<Rightarrow> nat \<Rightarrow> nat \<Rightarrow> 'm contig \<Rightarrow> error + 32 word list list" where
  "contig_pass conv k stp c =
     (if length (seq c) < k + stp + 1 then Inr []
      else case conv c of
             Inl e \<Rightarrow> Inl e
           | Inr mult \<Rightarrow> contig_edges k stp (seq c) mult)"

fun package_edges ::
  "('m contig \<Rightarrow> error + multi_t) \<Rightarrow> nat \<Rightarrow> nat \<Rightarrow> 'm contig list \<Rightarrow> error + 32 word list list" where
  "package_edges conv k stp [] = Inr []"
| "package_edges conv k stp (c # cs) =
     (case contig_pass conv k stp c of
        Inl e \<Rightarrow> Inl e
      | Inr es \<Rightarrow>
          (case package_edges conv k stp cs of
             Inl e \<Rightarrow> Inl e
           | Inr out \<Rightarrow> Inr (es @ out)))"

subsection \<open>The batch loop (lines 264 to 373)\<close>

text \<open>One batch: seeding (primary contigs only), the header on the first round, the edges.\<close>

definition process_package ::
  "('m contig \<Rightarrow> error + multi_t) \<Rightarrow> nat \<Rightarrow> nat \<Rightarrow> bool \<Rightarrow> 'm contig list \<Rightarrow> bool \<times> globals
     \<Rightarrow> error + bool \<times> globals" where
  "process_package conv k stp is_addi_contigs cur_package st =
     (case st of (is_first_round, g) \<Rightarrow>
        case (if \<not> is_addi_contigs then seed_package k stp cur_package (crusial_kmers g)
              else Inr (crusial_kmers g)) of
          Inl e \<Rightarrow> Inl e
        | Inr m \<Rightarrow>
            let g1 = g\<lparr>crusial_kmers := m\<rparr>;
                g2 = (if is_first_round
                      then g1\<lparr>output_edge_file := output_edge_file g1 @
                                [HeaderWord (of_nat (k + stp)), HeaderWord (of_nat (kWordsPerEdge k stp))]\<rparr>
                      else g1)
            in case package_edges conv k stp cur_package of
                 Inl e \<Rightarrow> Inl e
               | Inr es \<Rightarrow>
                   Inr (False, g2\<lparr>output_edge_file := output_edge_file g2 @ map EdgeWords es\<rparr>))"

text \<open>
  The \<^verbatim>\<open>while (true)\<close> loop. The input is the list of packages the reader thread
  delivers; once the list is used up the reader is at end of file and delivers empty
  packages. The loop leaves when the reader is at end of file and the package just
  delivered is empty.
\<close>

fun contig_loop ::
  "('m contig \<Rightarrow> error + multi_t) \<Rightarrow> nat \<Rightarrow> nat \<Rightarrow> bool \<Rightarrow> 'm contig list list \<Rightarrow> bool \<times> globals
     \<Rightarrow> error + bool \<times> globals" where
  "contig_loop conv k stp is_addi_contigs [] st = Inr st"
| "contig_loop conv k stp is_addi_contigs (pkg # rest) st =
     (if rest = [] \<and> pkg = [] then Inr st
      else case process_package conv k stp is_addi_contigs pkg st of
             Inl e \<Rightarrow> Inl e
           | Inr st' \<Rightarrow> contig_loop conv k stp is_addi_contigs rest st')"

definition ReadContigsAndBuildHash ::
  "('m contig \<Rightarrow> error + multi_t) \<Rightarrow> nat \<Rightarrow> nat \<Rightarrow> bool \<Rightarrow> 'm contig list list \<Rightarrow> globals \<Rightarrow> error + globals" where
  "ReadContigsAndBuildHash conv k stp is_addi_contigs packages g =
     (case contig_loop conv k stp is_addi_contigs packages (\<not> is_addi_contigs, g) of
        Inl e \<Rightarrow> Inl e
      | Inr (is_first_round, g') \<Rightarrow> Inr g')"

section \<open>ReadReadsAndProcess\<close>

subsection \<open>Checked accesses\<close>

text \<open>
  Every access to the bases of a read and to \<^verbatim>\<open>kmer_exist\<close> is checked: an index
  outside the container is \<open>IndexOutOfBounds\<close>.
\<close>

definition CharAt :: "base list \<Rightarrow> int \<Rightarrow> error + base" where
  "CharAt r i = (if 0 \<le> i \<and> i < int (length r) then Inr (r ! nat i) else Inl IndexOutOfBounds)"

definition get_exist :: "bool list \<Rightarrow> int \<Rightarrow> error + bool" where
  "get_exist ex i = (if 0 \<le> i \<and> i < int (length ex) then Inr (ex ! nat i) else Inl IndexOutOfBounds)"

definition set_exist :: "bool list \<Rightarrow> int \<Rightarrow> error + bool list" where
  "set_exist ex i =
     (if 0 \<le> i \<and> i < int (length ex) then Inr (ex[nat i := True]) else Inl IndexOutOfBounds)"

text \<open>
  \<^verbatim>\<open>(s_seq >> (31 - j) * 2) & 3\<close> on the \<^verbatim>\<open>int64_t s_seq\<close>: an arithmetic shift; a
  negative shift count is undefined in C++.
\<close>

definition hint_base :: "64 word \<Rightarrow> int \<Rightarrow> error + 64 word" where
  "hint_base s_seq j =
     (if j < 0 \<or> 31 < j then Inl ShiftOutOfRange
      else Inr (signed_drop_bit (nat ((31 - j) * 2)) s_seq AND 3))"

text \<open>\<^verbatim>\<open>kmer.ShiftAppend(CharAt(i, p))\<close> for each position \<open>p\<close> of the list, in order.\<close>

fun append_chars :: "base list \<Rightarrow> int list \<Rightarrow> kmer \<Rightarrow> error + kmer" where
  "append_chars r [] km = Inr km"
| "append_chars r (p # ps) km =
     (case CharAt r p of
        Inl e \<Rightarrow> Inl e
      | Inr c \<Rightarrow> append_chars r ps (ShiftAppend c km))"

text \<open>
  \<^verbatim>\<open>c = CharAt(i, p); kmer.ShiftAppend(c); rev_kmer.ShiftPreappend(3 - c)\<close> for each
  position \<open>p\<close> of the list, in order.
\<close>

fun append_both :: "base list \<Rightarrow> int list \<Rightarrow> kmer \<times> kmer \<Rightarrow> error + kmer \<times> kmer" where
  "append_both r [] ks = Inr ks"
| "append_both r (p # ps) ks =
     (case CharAt r p of
        Inl e \<Rightarrow> Inl e
      | Inr c \<Rightarrow> append_both r ps (ShiftAppend c (fst ks), ShiftPreappend (3 - c) (snd ks)))"

subsection \<open>Phase 1: anchor labelling (lines 447 to 501)\<close>

record scan_state =
  kmer_exist :: "bool list"
  cur_pos :: int
  last_marked_pos :: int
  kmer :: kmer
  rev_kmer :: kmer

text \<open>The forward hint loop of lines 466 to 472; the result is the final \<open>j\<close>.\<close>

function fwd_loop ::
  "base list \<Rightarrow> nat \<Rightarrow> 64 word \<Rightarrow> int \<Rightarrow> int \<Rightarrow> int \<Rightarrow> bool list \<Rightarrow> error + int \<times> bool list" where
  "fwd_loop r k s_seq s_seq_length cp j ex =
     (if j < s_seq_length \<and> cp + int k + j < int (length r) then
        case CharAt r (cp + int k + j) of
          Inl e \<Rightarrow> Inl e
        | Inr c \<Rightarrow>
            (case hint_base s_seq j of
               Inl e \<Rightarrow> Inl e
             | Inr h \<Rightarrow>
                 if ucast c = h then
                   (case set_exist ex (cp + j + 1) of
                      Inl e \<Rightarrow> Inl e
                    | Inr ex' \<Rightarrow> fwd_loop r k s_seq s_seq_length cp (j + 1) ex')
                 else Inr (j, ex))
      else Inr (j, ex))"
  by pat_completeness auto
termination
  by (relation "measure (\<lambda>(r, k, s_seq, s_seq_length, cp, j, ex). nat (s_seq_length - j))") auto

declare fwd_loop.simps [simp del]

text \<open>The backward hint loop of lines 481 to 487.\<close>

function bwd_loop ::
  "base list \<Rightarrow> 64 word \<Rightarrow> int \<Rightarrow> int \<Rightarrow> int \<Rightarrow> int \<Rightarrow> bool list \<Rightarrow> error + int \<times> bool list" where
  "bwd_loop r s_seq s_seq_length cp lmp j ex =
     (if j < s_seq_length \<and> cp - 1 - j > lmp then
        case CharAt r (cp - 1 - j) of
          Inl e \<Rightarrow> Inl e
        | Inr c \<Rightarrow>
            (case hint_base s_seq j of
               Inl e \<Rightarrow> Inl e
             | Inr h \<Rightarrow>
                 if ucast (3 - c) = h then
                   (case set_exist ex (cp - 1 - j) of
                      Inl e \<Rightarrow> Inl e
                    | Inr ex' \<Rightarrow> bwd_loop r s_seq s_seq_length cp lmp (j + 1) ex')
                 else Inr (j, ex))
      else Inr (j, ex))"
  by pat_completeness auto
termination
  by (relation "measure (\<lambda>(r, s_seq, s_seq_length, cp, lmp, j, ex). nat (s_seq_length - j))") auto

declare bwd_loop.simps [simp del]

text \<open>
  Lines 458 to 489: the probe at \<open>cur_pos\<close>. The result is the state and \<open>next_pos\<close>.
\<close>

definition probe ::
  "(kmer \<rightharpoonup> 64 word) \<Rightarrow> nat \<Rightarrow> base list \<Rightarrow> scan_state \<Rightarrow> error + scan_state \<times> int" where
  "probe C3 k r st =
     (let next_pos = cur_pos st + 1 in
      case get_exist (kmer_exist st) (cur_pos st) of
        Inl e \<Rightarrow> Inl e
      | Inr marked \<Rightarrow>
          if marked then Inr (st, next_pos)
          else
            (case C3 (kmer st) of
               Some s_seq \<Rightarrow>
                 (case set_exist (kmer_exist st) (cur_pos st) of
                    Inl e \<Rightarrow> Inl e
                  | Inr ex \<Rightarrow>
                      (case fwd_loop r k s_seq (uint (s_seq AND 63)) (cur_pos st) 0 ex of
                         Inl e \<Rightarrow> Inl e
                       | Inr (j, ex') \<Rightarrow>
                           Inr (st\<lparr>kmer_exist := ex', last_marked_pos := cur_pos st + j\<rparr>,
                                cur_pos st + j + 1)))
             | None \<Rightarrow>
                 (case C3 (rev_kmer st) of
                    Some s_seq \<Rightarrow>
                      (case set_exist (kmer_exist st) (cur_pos st) of
                         Inl e \<Rightarrow> Inl e
                       | Inr ex \<Rightarrow>
                           (case bwd_loop r s_seq (uint (s_seq AND 63)) (cur_pos st)
                                   (last_marked_pos st) 0 ex of
                              Inl e \<Rightarrow> Inl e
                            | Inr (j, ex') \<Rightarrow> Inr (st\<lparr>kmer_exist := ex'\<rparr>, next_pos)))
                  | None \<Rightarrow> Inr (st, next_pos))))"

text \<open>
  Lines 492 to 497: \<^verbatim>\<open>while (cur_pos < next_pos)\<close>, one character per round, at the
  positions \<open>cur_pos + k\<close> up to \<open>next_pos + k - 1\<close>.
\<close>

definition advance :: "nat \<Rightarrow> base list \<Rightarrow> int \<Rightarrow> scan_state \<Rightarrow> error + scan_state" where
  "advance k r next_pos st =
     (case append_both r (map (\<lambda>p. p + int k - 1) [cur_pos st + 1..next_pos]) (kmer st, rev_kmer st) of
        Inl e \<Rightarrow> Inl e
      | Inr (km, rk) \<Rightarrow>
          Inr (st\<lparr>cur_pos := (if cur_pos st < next_pos then next_pos else cur_pos st),
                  kmer := km, rev_kmer := rk\<rparr>))"

lemma fwd_loop_mono:
  "fwd_loop r k s_seq n cp j ex = Inr (j', ex') \<Longrightarrow> j \<le> j'"
proof (induction r k s_seq n cp j ex rule: fwd_loop.induct)
  case (1 r k s_seq n cp j ex)
  show ?case
  proof (cases "j < n \<and> cp + int k + j < int (length r)")
    case False
    with "1.prems" show ?thesis by (simp add: fwd_loop.simps)
  next
    case True
    with "1.prems" "1.IH" show ?thesis
      by (subst (asm) fwd_loop.simps) (force split: sum.splits if_splits)
  qed
qed

lemma probe_next_pos:
  assumes "probe C3 k r st = Inr (st', next_pos)"
  shows "cur_pos st' = cur_pos st \<and> cur_pos st < next_pos"
  using assms
  by (auto simp: probe_def Let_def split: sum.splits if_splits option.splits prod.splits
      dest: fwd_loop_mono)

lemma advance_cur_pos:
  assumes "advance k r next_pos st = Inr st'"
  shows "cur_pos st' = (if cur_pos st < next_pos then next_pos else cur_pos st)"
  using assms by (auto simp: advance_def split: sum.splits prod.splits)

text \<open>The \<^verbatim>\<open>while (cur_pos + kmer_k <= length)\<close> loop of lines 457 to 501.\<close>

function phase1_loop ::
  "(kmer \<rightharpoonup> 64 word) \<Rightarrow> nat \<Rightarrow> base list \<Rightarrow> scan_state \<Rightarrow> error + scan_state" where
  "phase1_loop C3 k r st =
     (if cur_pos st + int k \<le> int (length r) then
        case probe C3 k r st of
          Inl e \<Rightarrow> Inl e
        | Inr (st', next_pos) \<Rightarrow>
            if next_pos + int k \<le> int (length r) then
              (case advance k r next_pos st' of
                 Inl e \<Rightarrow> Inl e
               | Inr st'' \<Rightarrow> phase1_loop C3 k r st'')
            else Inr st'
      else Inr st)"
  by pat_completeness auto
termination phase1_loop
proof (relation "measure (\<lambda>(C3, k, r, st). nat (int (length r) - cur_pos st))", goal_cases)
  case 1
  show ?case by simp
next
  case (2 C3 k r st x2 st' next_pos st'')
  from 2 have p: "probe C3 k r st = Inr (st', next_pos)" by simp
  from probe_next_pos [OF p] advance_cur_pos [OF 2(5)] 2(4)
  show ?case by auto
qed

declare phase1_loop.simps [simp del]

text \<open>Lines 447 to 455, then the loop.\<close>

definition phase1 :: "(kmer \<rightharpoonup> 64 word) \<Rightarrow> nat \<Rightarrow> base list \<Rightarrow> error + scan_state" where
  "phase1 C3 k r =
     (case append_chars r [0..int k - 1] (Kmer k) of
        Inl e \<Rightarrow> Inl e
      | Inr km \<Rightarrow>
          phase1_loop C3 k r
            \<lparr>kmer_exist = replicate (length r) False, cur_pos = 0, last_marked_pos = - 1,
             kmer = km, rev_kmer = ReverseComplement km\<rparr>)"

subsection \<open>Phase 2: edge emission (lines 503 to 542)\<close>

text \<open>
  Modelled from the spec: \<^verbatim>\<open>get_ref_with_lock\<close> of the concurrent map (not part of this
  file) returns a reference to the counter of the key, which is 0 for a key that is new.
  Lines 531 to 533: the increment under the lock.
\<close>

definition increment :: "kmer \<Rightarrow> (kmer \<rightharpoonup> multi_t) \<Rightarrow> (kmer \<rightharpoonup> multi_t)" where
  "increment key m =
     (let multi = (case m key of None \<Rightarrow> 0 | Some v \<Rightarrow> v)
      in m(key \<mapsto> (if multi < kMaxMulti_t then multi + 1 else multi)))"

record emit_state =
  edge_kmer :: kmer
  edge_rev_kmer :: kmer
  last_j :: int
  acc_exist :: int
  aligned :: bool
  edges :: "kmer \<rightharpoonup> multi_t"
  log :: "kmer list"

text \<open>The three regimes of lines 510 to 528.\<close>

definition resync ::
  "nat \<Rightarrow> nat \<Rightarrow> base list \<Rightarrow> int \<Rightarrow> emit_state \<Rightarrow> error + kmer \<times> kmer" where
  "resync k stp r j st =
     (if j - last_j st < 8 then
        append_both r (map (\<lambda>x. x + int k - 1) [last_j st + 1..j]) (edge_kmer st, edge_rev_kmer st)
      else if j - last_j st < int k + int stp + 1 then
        (case append_chars r (map (\<lambda>x. x + int k - 1) [last_j st + 1..j]) (edge_kmer st) of
           Inl e \<Rightarrow> Inl e
         | Inr km \<Rightarrow> Inr (km, ReverseComplement km))
      else
        (case append_chars r [j - int stp - 1..j + int k - 1] (edge_kmer st) of
           Inl e \<Rightarrow> Inl e
         | Inr km \<Rightarrow> Inr (km, ReverseComplement km)))"

text \<open>One round of the loop of line 506.\<close>

definition emit_step ::
  "nat \<Rightarrow> nat \<Rightarrow> base list \<Rightarrow> bool list \<Rightarrow> int \<Rightarrow> emit_state \<Rightarrow> error + emit_state" where
  "emit_step k stp r ex j st =
     (case get_exist ex j of
        Inl e \<Rightarrow> Inl e
      | Inr marked \<Rightarrow>
          let acc = (if marked then acc_exist st + 1 else 0) in
          if acc \<ge> int stp + 2 then
            (case resync k stp r j st of
               Inl e \<Rightarrow> Inl e
             | Inr (km, rk) \<Rightarrow>
                 let key = (if kmer_less km rk then km else rk) in
                 Inr \<lparr>edge_kmer = km, edge_rev_kmer = rk, last_j = j, acc_exist = acc,
                      aligned = True, edges = increment key (edges st), log = log st @ [key]\<rparr>)
          else Inr (st\<lparr>acc_exist := acc\<rparr>))"

fun emit_loop ::
  "nat \<Rightarrow> nat \<Rightarrow> base list \<Rightarrow> bool list \<Rightarrow> int list \<Rightarrow> emit_state \<Rightarrow> error + emit_state" where
  "emit_loop k stp r ex [] st = Inr st"
| "emit_loop k stp r ex (j # js) st =
     (case emit_step k stp r ex j st of
        Inl e \<Rightarrow> Inl e
      | Inr st' \<Rightarrow> emit_loop k stp r ex js st')"

subsection \<open>One read, one batch, all batches\<close>

text \<open>
  The body of the parallel loop of lines 440 to 548 for one read; the result carries the
  read's \<^verbatim>\<open>aligned\<close> flag.
\<close>

definition process_read ::
  "nat \<Rightarrow> nat \<Rightarrow> int \<Rightarrow> base list \<Rightarrow> globals \<Rightarrow> error + globals \<times> bool" where
  "process_read k stp max_len r g =
     (if int (length r) > max_len then Inl AssertFailed
      else if length r < k + stp + 1 then Inr (g, False)
      else
        case phase1 (crusial_kmers g) k r of
          Inl e \<Rightarrow> Inl e
        | Inr st \<Rightarrow>
            (case emit_loop k stp r (kmer_exist st) [0..int (length r) - int k]
                    \<lparr>edge_kmer = resize (k + stp + 1) (kmer st),
                     edge_rev_kmer = resize (k + stp + 1) (rev_kmer st),
                     last_j = - int k, acc_exist = 0, aligned = False,
                     edges = iterative_edges g, log = increment_log g\<rparr> of
               Inl e \<Rightarrow> Inl e
             | Inr es \<Rightarrow>
                 Inr (g\<lparr>iterative_edges := edges es, increment_log := log es\<rparr>, aligned es)))"

text \<open>The reads of one batch, in order; the result lists the reads that are aligned.\<close>

fun process_reads ::
  "nat \<Rightarrow> nat \<Rightarrow> int \<Rightarrow> base list list \<Rightarrow> globals \<Rightarrow> error + globals \<times> base list list" where
  "process_reads k stp max_len [] g = Inr (g, [])"
| "process_reads k stp max_len (r # rs) g =
     (case process_read k stp max_len r g of
        Inl e \<Rightarrow> Inl e
      | Inr (g', is_aligned) \<Rightarrow>
          (case process_reads k stp max_len rs g' of
             Inl e \<Rightarrow> Inl e
           | Inr (g'', out) \<Rightarrow> Inr (g'', (if is_aligned then [r] else []) @ out)))"

text \<open>
  The \<^verbatim>\<open>while (true)\<close> loop of lines 427 to 562: it leaves at the first batch without
  reads; the aligned reads of a batch are written after the batch (lines 552 to 557).
\<close>

fun read_loop ::
  "nat \<Rightarrow> nat \<Rightarrow> int \<Rightarrow> base list list list \<Rightarrow> globals \<Rightarrow> error + globals" where
  "read_loop k stp max_len [] g = Inr g"
| "read_loop k stp max_len (pkg # rest) g =
     (if pkg = [] then Inr g
      else case process_reads k stp max_len pkg g of
             Inl e \<Rightarrow> Inl e
           | Inr (g', out) \<Rightarrow>
               read_loop k stp max_len rest (g'\<lparr>output_read_file := output_read_file g' @ out\<rparr>))"

text \<open>
  Lines 565 to 586: the iterative edges are packed and written. The order in which the
  map enumerates its entries is not specified; \<open>entries\<close> is that enumeration.
\<close>

definition drain_entry :: "nat \<Rightarrow> nat \<Rightarrow> kmer \<times> multi_t \<Rightarrow> error + 32 word list" where
  "drain_entry next_k W e =
     (let packed_edge = pack_bases (\<lambda>p. fst e ! p) next_k W in
      if packed_edge ! (W - 1) AND ucast kMaxMulti_t \<noteq> 0 then Inl AssertFailed
      else Inr (packed_edge[W - 1 := packed_edge ! (W - 1) OR ucast (snd e)]))"

fun drain :: "nat \<Rightarrow> nat \<Rightarrow> (kmer \<times> multi_t) list \<Rightarrow> error + 32 word list list" where
  "drain next_k W [] = Inr []"
| "drain next_k W (e # es) =
     (case drain_entry next_k W e of
        Inl err \<Rightarrow> Inl err
      | Inr pe \<Rightarrow>
          (case drain next_k W es of
             Inl err \<Rightarrow> Inl err
           | Inr out \<Rightarrow> Inr (pe # out)))"

definition ReadReadsAndProcess ::
  "((kmer \<rightharpoonup> multi_t) \<Rightarrow> (kmer \<times> multi_t) list) \<Rightarrow> nat \<Rightarrow> nat \<Rightarrow> int \<Rightarrow> base list list list
     \<Rightarrow> globals \<Rightarrow> error + globals" where
  "ReadReadsAndProcess entries k stp max_len packages g =
     (case read_loop k stp max_len packages g of
        Inl e \<Rightarrow> Inl e
      | Inr g' \<Rightarrow>
          (case drain (stp + k) (kWordsPerEdge k stp) (entries (iterative_edges g')) of
             Inl e \<Rightarrow> Inl e
           | Inr es \<Rightarrow> Inr (g'\<lparr>output_edge_file := output_edge_file g' @ map EdgeWords es\<rparr>)))"

section \<open>main\<close>

definition InitGlobalData :: globals where
  "InitGlobalData =
     \<lparr>crusial_kmers = Map.empty, iterative_edges = Map.empty, output_edge_file = [],
      output_read_file = [], increment_log = []\<rparr>"

text \<open>
  Lines 135 to 140, for options that \<open>ParseOptions\<close> accepted. \<open>addi\<close> is \<open>None\<close> when
  \<^verbatim>\<open>addi_multi_file\<close> is empty.
\<close>

definition main ::
  "('m contig \<Rightarrow> error + multi_t) \<Rightarrow> ((kmer \<rightharpoonup> multi_t) \<Rightarrow> (kmer \<times> multi_t) list) \<Rightarrow> nat \<Rightarrow> nat \<Rightarrow> int
     \<Rightarrow> 'm contig list list \<Rightarrow> 'm contig list list option \<Rightarrow> base list list list
     \<Rightarrow> error + globals" where
  "main conv entries k stp max_len primary addi reads =
     (case ReadContigsAndBuildHash conv k stp False primary InitGlobalData of
        Inl e \<Rightarrow> Inl e
      | Inr g1 \<Rightarrow>
          (case (case addi of
                   None \<Rightarrow> Inr g1
                 | Some packages \<Rightarrow> ReadContigsAndBuildHash conv k stp True packages g1) of
             Inl e \<Rightarrow> Inl e
           | Inr g2 \<Rightarrow> ReadReadsAndProcess entries k stp max_len reads g2))"

section \<open>Properties\<close>

section \<open>Option parsing and the bound on the step\<close>

text \<open>
  C9 (the claim: option parsing exits with a non-zero status whenever the step violates
  \<open>0 < s \<le> 29\<close>). The help text of the option says \<^verbatim>\<open>(<= 29)\<close>, but \<open>ParseOptions\<close>
  only tests \<open>step + kmer_k\<close> against the capacity and \<open>step \<le> 0\<close>: every
  configuration with \<open>step > 29\<close> that fits the capacity and is otherwise valid is
  accepted unchanged.
\<close>

theorem ParseOptions_accepts_large_step:
  assumes "sint (step options + kmer_k options) < sint (of_nat max_size :: 32 word)"
    and "contigs_file options \<noteq> ''''" and "contigs_multi_file options \<noteq> ''''"
    and "read_file options \<noteq> ''''" and "0 < sint (kmer_k options)" and "29 < sint (step options)"
    and "output_prefix options \<noteq> ''''" and "read_format options = ''fasta''"
    and "max_read_len options \<noteq> 0" and "num_cpu_threads options \<noteq> 0"
  shows "ParseOptions max_size omp_max options = Inr options"
  using assms by (simp add: ParseOptions_def)

theorem ParseOptions_accepts_large_step_witness:
  "ParseOptions 128 4
     \<lparr>contigs_file = ''c.fa'', contigs_multi_file = ''c.multi'', addi_contig_file = '''',
      addi_multi_file = '''', read_file = ''r.fa'', read_format = ''fasta'',
      num_cpu_threads = 2, kmer_k = 21, step = 30, max_read_len = 100, output_prefix = ''out''\<rparr>
   = Inr \<lparr>contigs_file = ''c.fa'', contigs_multi_file = ''c.multi'', addi_contig_file = '''',
      addi_multi_file = '''', read_file = ''r.fa'', read_format = ''fasta'',
      num_cpu_threads = 2, kmer_k = 21, step = 30, max_read_len = 100, output_prefix = ''out''\<rparr>"
  by (rule ParseOptions_accepts_large_step) simp_all


section \<open>Saturation of the counters\<close>

text \<open>The value of a counter, 0 for a key that is not in the map.\<close>

definition counter :: "(kmer \<rightharpoonup> multi_t) \<Rightarrow> kmer \<Rightarrow> nat" where
  "counter m key = (case m key of None \<Rightarrow> 0 | Some v \<Rightarrow> unat v)"

text \<open>The map holds exactly the increments of the log.\<close>

definition log_ok :: "(kmer \<rightharpoonup> multi_t) \<Rightarrow> kmer list \<Rightarrow> bool" where
  "log_ok m ks = (m = fold increment ks Map.empty)"

lemma counter_le: "counter m key \<le> 65535"
proof -
  have "unat v \<le> 65535" for v :: multi_t
    using unsigned_less [of v, where 'a = nat] by simp
  then show ?thesis by (simp add: counter_def split: option.splits)
qed

lemma sat_inc_unat:
  fixes multi :: multi_t
  shows "unat (if multi < kMaxMulti_t then multi + 1 else multi) = min 65535 (unat multi + 1)"
proof (cases "multi < kMaxMulti_t")
  case True
  then have "unat multi < 65535" by (simp add: kMaxMulti_t_def word_less_nat_alt)
  then have "unat (multi + 1) = unat multi + 1"
    by (simp add: unat_word_ariths)
  with True \<open>unat multi < 65535\<close> show ?thesis by simp
next
  case False
  then have "65535 \<le> unat multi" by (simp add: kMaxMulti_t_def not_less word_le_nat_alt)
  moreover have "unat multi < 65536" using unsigned_less [of multi, where 'a = nat] by simp
  ultimately show ?thesis using False by simp
qed

lemma counter_increment:
  "counter (increment k m) key =
     (if key = k then min 65535 (counter m key + 1) else counter m key)"
proof (cases "m k")
  case None
  then show ?thesis
    using sat_inc_unat [of 0] by (simp add: counter_def increment_def)
next
  case (Some v)
  then show ?thesis
    using sat_inc_unat [of v] by (simp add: counter_def increment_def)
qed

lemma counter_fold_increment:
  "counter (fold increment ks m) key = min 65535 (counter m key + count_list ks key)"
proof (induction ks arbitrary: m)
  case Nil
  show ?case using counter_le [of m key] by simp
next
  case (Cons k ks)
  have "counter (fold increment (k # ks) m) key =
          min 65535 (counter (increment k m) key + count_list ks key)"
    using Cons.IH [of "increment k m"] by simp
  also have "\<dots> = min 65535 (counter m key + count_list (k # ks) key)"
    unfolding counter_increment by (cases "k = key") (auto simp: min_def)
  finally show ?case .
qed

lemma dom_fold_increment: "dom (fold increment ks m) = dom m \<union> set ks"
  by (induction ks arbitrary: m) (auto simp: increment_def Let_def)

lemma emit_step_log_ok:
  assumes "emit_step k stp r ex j st = Inr st'" and "log_ok (edges st) (log st)"
  shows "log_ok (edges st') (log st')"
  using assms
  by (auto simp: emit_step_def log_ok_def Let_def split: sum.splits if_splits prod.splits)

lemma emit_loop_log_ok:
  "emit_loop k stp r ex js st = Inr st' \<Longrightarrow> log_ok (edges st) (log st)
     \<Longrightarrow> log_ok (edges st') (log st')"
  by (induction js arbitrary: st) (auto split: sum.splits dest: emit_step_log_ok)

lemma process_read_log_ok:
  assumes "process_read k stp max_len r g = Inr (g', a)"
    and "log_ok (iterative_edges g) (increment_log g)"
  shows "log_ok (iterative_edges g') (increment_log g')"
  using assms
  by (auto simp: process_read_def split: if_splits sum.splits dest!: emit_loop_log_ok)

lemma process_reads_log_ok:
  "process_reads k stp max_len rs g = Inr (g', out)
     \<Longrightarrow> log_ok (iterative_edges g) (increment_log g)
     \<Longrightarrow> log_ok (iterative_edges g') (increment_log g')"
  by (induction rs arbitrary: g out)
    (auto split: sum.splits prod.splits dest: process_read_log_ok)

lemma read_loop_log_ok:
  "read_loop k stp max_len pkgs g = Inr g'
     \<Longrightarrow> log_ok (iterative_edges g) (increment_log g)
     \<Longrightarrow> log_ok (iterative_edges g') (increment_log g')"
proof (induction pkgs arbitrary: g)
  case Nil
  then show ?case by simp
next
  case (Cons pkg rest)
  show ?case
  proof (cases "pkg = []")
    case True
    with Cons.prems show ?thesis by simp
  next
    case False
    with Cons.prems obtain g1 out where
      p: "process_reads k stp max_len pkg g = Inr (g1, out)" and
      l: "read_loop k stp max_len rest (g1\<lparr>output_read_file := output_read_file g1 @ out\<rparr>) = Inr g'"
      by (auto split: sum.splits prod.splits)
    from process_reads_log_ok [OF p Cons.prems(2)]
    have "log_ok (iterative_edges (g1\<lparr>output_read_file := output_read_file g1 @ out\<rparr>))
            (increment_log (g1\<lparr>output_read_file := output_read_file g1 @ out\<rparr>))"
      by simp
    from Cons.IH [OF l this] show ?thesis .
  qed
qed

lemma ReadReadsAndProcess_log_ok:
  assumes "ReadReadsAndProcess entries k stp max_len pkgs g = Inr g'"
    and "log_ok (iterative_edges g) (increment_log g)"
  shows "log_ok (iterative_edges g') (increment_log g')"
  using assms
  by (auto simp: ReadReadsAndProcess_def split: sum.splits dest: read_loop_log_ok)

lemma process_package_counters:
  assumes "process_package conv k stp addi pkg (b, g) = Inr (b', g')"
  shows "iterative_edges g' = iterative_edges g \<and> increment_log g' = increment_log g"
  using assms
  by (auto simp: process_package_def Let_def split: sum.splits if_splits)

lemma contig_loop_counters:
  "contig_loop conv k stp addi pkgs (b, g) = Inr (b', g')
     \<Longrightarrow> iterative_edges g' = iterative_edges g \<and> increment_log g' = increment_log g"
proof (induction pkgs arbitrary: b g)
  case Nil
  then show ?case by simp
next
  case (Cons pkg rest)
  show ?case
  proof (cases "rest = [] \<and> pkg = []")
    case True
    with Cons.prems show ?thesis by simp
  next
    case False
    with Cons.prems obtain b1 g1 where
      p: "process_package conv k stp addi pkg (b, g) = Inr (b1, g1)" and
      l: "contig_loop conv k stp addi rest (b1, g1) = Inr (b', g')"
      by (auto split: sum.splits)
    from process_package_counters [OF p] Cons.IH [OF l] show ?thesis by simp
  qed
qed

lemma ReadContigsAndBuildHash_counters:
  assumes "ReadContigsAndBuildHash conv k stp addi pkgs g = Inr g'"
  shows "iterative_edges g' = iterative_edges g \<and> increment_log g' = increment_log g"
  using assms
  by (auto simp: ReadContigsAndBuildHash_def split: sum.splits prod.splits
      dest: contig_loop_counters)

lemma main_log_ok:
  assumes "main conv entries k stp max_len primary addi reads = Inr g"
  shows "log_ok (iterative_edges g) (increment_log g)"
proof -
  from assms obtain g1 g2 where
    g1: "ReadContigsAndBuildHash conv k stp False primary InitGlobalData = Inr g1" and
    g2: "(case addi of None \<Rightarrow> Inr g1
          | Some packages \<Rightarrow> ReadContigsAndBuildHash conv k stp True packages g1) = Inr g2" and
    g: "ReadReadsAndProcess entries k stp max_len reads g2 = Inr g"
    by (auto simp: main_def split: sum.splits)
  from ReadContigsAndBuildHash_counters [OF g1]
  have "log_ok (iterative_edges g1) (increment_log g1)"
    by (simp add: InitGlobalData_def log_ok_def)
  with g2 have "log_ok (iterative_edges g2) (increment_log g2)"
    by (cases addi) (auto dest: ReadContigsAndBuildHash_counters)
  from ReadReadsAndProcess_log_ok [OF g this] show ?thesis .
qed

text \<open>
  C6: no counter stored in the iterative-edge map exceeds \<open>MULTI_MAX = 65535\<close>; every
  increment saturates instead of wrapping around, so after the whole run the counter of a
  key is the number of increments made on that key, capped at 65535.
\<close>

theorem counters_saturate:
  assumes "main conv entries k stp max_len primary addi reads = Inr g"
    and "iterative_edges g key = Some v"
  shows "unat v = min 65535 (count_list (increment_log g) key) \<and> v \<le> kMaxMulti_t"
proof -
  from main_log_ok [OF assms(1)]
  have "iterative_edges g = fold increment (increment_log g) Map.empty"
    by (simp add: log_ok_def)
  with counter_fold_increment [of "increment_log g" Map.empty key] assms(2)
  have "unat v = min 65535 (count_list (increment_log g) key)" by (simp add: counter_def)
  then show ?thesis by (simp add: kMaxMulti_t_def word_le_nat_alt)
qed

theorem counters_saturate_witness:
  "\<exists>g v. main (conversion 3 1) (\<lambda>m. []) 3 1 100
            [[\<lparr>seq = [0, 0, 1, 3, 2, 1], multiplicity = 7\<rparr>]] None
            [[[0, 0, 1, 3, 2, 1], [0, 0, 1, 3, 2, 1]]] = Inr g
     \<and> iterative_edges g [0, 0, 1, 3, 2] = Some v
     \<and> v = 2
     \<and> unat v = min 65535 (count_list (increment_log g) [0, 0, 1, 3, 2])
     \<and> v \<le> kMaxMulti_t"
proof -
  let ?run = "main (conversion 3 1) (\<lambda>m. []) 3 1 100
            [[\<lparr>seq = [0, 0, 1, 3, 2, 1], multiplicity = 7\<rparr>]] None
            [[[0, 0, 1, 3, 2, 1], [0, 0, 1, 3, 2, 1]]]"
  have "\<not> isl ?run" by code_simp
  then obtain g where g: "?run = Inr g" by (cases ?run) auto
  have "iterative_edges (projr ?run) [0, 0, 1, 3, 2] = Some 2" by code_simp
  with g have v: "iterative_edges g [0, 0, 1, 3, 2] = Some 2" by simp
  from counters_saturate [OF g v] g v show ?thesis by blast
qed

section \<open>The header of the edge file\<close>

text \<open>The two header words of lines 311 to 313.\<close>

definition header :: "nat \<Rightarrow> nat \<Rightarrow> fwrite list" where
  "header k stp = [HeaderWord (of_nat (k + stp)), HeaderWord (of_nat (kWordsPerEdge k stp))]"

text \<open>The primary reader delivers no batch that the loop processes.\<close>

definition no_batch :: "'a list list \<Rightarrow> bool" where
  "no_batch packages = (packages = [] \<or> packages = [[]])"

lemma process_package_output:
  assumes "process_package conv k stp addi pkg (b, g) = Inr (b', g')"
  shows "\<not> b' \<and> (\<exists>es. output_edge_file g' =
           output_edge_file g @ (if b then header k stp else []) @ map EdgeWords es)"
  using assms
  by (auto simp: process_package_def Let_def header_def split: sum.splits if_splits)

lemma contig_loop_output_later:
  "contig_loop conv k stp addi pkgs (False, g) = Inr (b', g')
     \<Longrightarrow> \<not> b' \<and> (\<exists>es. output_edge_file g' = output_edge_file g @ map EdgeWords es)"
proof (induction pkgs arbitrary: g)
  case Nil
  then show ?case by simp
next
  case (Cons pkg rest)
  show ?case
  proof (cases "rest = [] \<and> pkg = []")
    case True
    with Cons.prems show ?thesis by simp
  next
    case False
    with Cons.prems obtain b1 g1 where
      p: "process_package conv k stp addi pkg (False, g) = Inr (b1, g1)" and
      l: "contig_loop conv k stp addi rest (b1, g1) = Inr (b', g')"
      by (auto split: sum.splits)
    from process_package_output [OF p] obtain es1 where
      b1: "\<not> b1" and o1: "output_edge_file g1 = output_edge_file g @ map EdgeWords es1"
      by auto
    from l b1 have "contig_loop conv k stp addi rest (False, g1) = Inr (b', g')" by simp
    from Cons.IH [OF this] obtain es2 where
      "\<not> b'" and "output_edge_file g' = output_edge_file g1 @ map EdgeWords es2"
      by auto
    with o1 have "output_edge_file g' = output_edge_file g @ map EdgeWords (es1 @ es2)"
      by simp
    with \<open>\<not> b'\<close> show ?thesis by blast
  qed
qed

lemma contig_loop_output_first:
  assumes "contig_loop conv k stp addi pkgs (True, g) = Inr (b', g')"
  shows "\<exists>es. output_edge_file g' =
           output_edge_file g @ (if no_batch pkgs then [] else header k stp) @ map EdgeWords es"
proof (cases pkgs)
  case Nil
  with assms show ?thesis by (simp add: no_batch_def)
next
  case (Cons pkg rest)
  show ?thesis
  proof (cases "rest = [] \<and> pkg = []")
    case True
    with assms Cons show ?thesis by (simp add: no_batch_def)
  next
    case False
    with assms Cons obtain b1 g1 where
      p: "process_package conv k stp addi pkg (True, g) = Inr (b1, g1)" and
      l: "contig_loop conv k stp addi rest (b1, g1) = Inr (b', g')"
      by (auto split: sum.splits)
    from process_package_output [OF p] obtain es1 where
      b1: "\<not> b1" and
      o1: "output_edge_file g1 = output_edge_file g @ header k stp @ map EdgeWords es1"
      by auto
    from l b1 have "contig_loop conv k stp addi rest (False, g1) = Inr (b', g')" by simp
    from contig_loop_output_later [OF this] obtain es2 where
      "output_edge_file g' = output_edge_file g1 @ map EdgeWords es2"
      by auto
    with o1 have "output_edge_file g' =
        output_edge_file g @ header k stp @ map EdgeWords (es1 @ es2)"
      by simp
    moreover from False Cons have "\<not> no_batch pkgs" by (auto simp: no_batch_def)
    ultimately show ?thesis by (intro exI [of _ "es1 @ es2"]) simp
  qed
qed

lemma process_read_output:
  assumes "process_read k stp max_len r g = Inr (g', a)"
  shows "output_edge_file g' = output_edge_file g"
  using assms by (auto simp: process_read_def split: if_splits sum.splits)

lemma process_reads_output:
  "process_reads k stp max_len rs g = Inr (g', out) \<Longrightarrow> output_edge_file g' = output_edge_file g"
  by (induction rs arbitrary: g out)
    (auto split: sum.splits prod.splits dest: process_read_output)

lemma read_loop_output:
  "read_loop k stp max_len pkgs g = Inr g' \<Longrightarrow> output_edge_file g' = output_edge_file g"
proof (induction pkgs arbitrary: g)
  case Nil
  then show ?case by simp
next
  case (Cons pkg rest)
  show ?case
  proof (cases "pkg = []")
    case True
    with Cons.prems show ?thesis by simp
  next
    case False
    with Cons.prems obtain g1 out where
      p: "process_reads k stp max_len pkg g = Inr (g1, out)" and
      l: "read_loop k stp max_len rest (g1\<lparr>output_read_file := output_read_file g1 @ out\<rparr>) = Inr g'"
      by (auto split: sum.splits prod.splits)
    from Cons.IH [OF l] process_reads_output [OF p] show ?thesis by simp
  qed
qed

lemma ReadReadsAndProcess_output:
  assumes "ReadReadsAndProcess entries k stp max_len pkgs g = Inr g'"
  shows "\<exists>es. output_edge_file g' = output_edge_file g @ map EdgeWords es"
proof -
  from assms obtain g1 es where
    l: "read_loop k stp max_len pkgs g = Inr g1" and
    "g' = g1\<lparr>output_edge_file := output_edge_file g1 @ map EdgeWords es\<rparr>"
    by (auto simp: ReadReadsAndProcess_def split: sum.splits)
  with read_loop_output [OF l] show ?thesis by auto
qed

lemma filter_is_header_edges: "filter is_header (map EdgeWords es) = []"
  by (induction es) simp_all

text \<open>
  C7 (the claim: the header is written exactly once, at the start of \<^verbatim>\<open>edges.0\<close>, also
  when the primary contig stream is empty). When the primary contig stream delivers at
  least one batch that the loop processes, \<^verbatim>\<open>edges.0\<close> begins with exactly the two header
  words \<open>k + s\<close> and \<open>W\<close>, written once, and every other write is a packed edge, whatever
  the number of primary and additional batches and whatever the reads. The header is
  written inside the loop body, on the first round of the primary pass only: when the
  primary stream is empty the loop leaves before its body, the additional pass starts
  with \<^verbatim>\<open>is_first_round = false\<close>, and the file holds no header word at all.
\<close>

theorem header_written_once:
  assumes "main conv entries k stp max_len primary addi reads = Inr g"
  shows "(\<exists>es. output_edge_file g =
            (if no_batch primary then [] else header k stp) @ map EdgeWords es)
         \<and> filter is_header (output_edge_file g) =
            (if no_batch primary then [] else header k stp)"
proof -
  from assms obtain g1 g2 where
    g1: "ReadContigsAndBuildHash conv k stp False primary InitGlobalData = Inr g1" and
    g2: "(case addi of None \<Rightarrow> Inr g1
          | Some packages \<Rightarrow> ReadContigsAndBuildHash conv k stp True packages g1) = Inr g2" and
    g: "ReadReadsAndProcess entries k stp max_len reads g2 = Inr g"
    by (auto simp: main_def split: sum.splits)
  let ?h = "if no_batch primary then [] else header k stp"
  from g1 obtain b1 where
    "contig_loop conv k stp False primary (True, InitGlobalData) = Inr (b1, g1)"
    by (auto simp: ReadContigsAndBuildHash_def split: sum.splits)
  from contig_loop_output_first [OF this] obtain es1 where
    o1: "output_edge_file g1 = ?h @ map EdgeWords es1"
    by (auto simp: InitGlobalData_def)
  have "\<exists>es2. output_edge_file g2 = output_edge_file g1 @ map EdgeWords es2"
  proof (cases addi)
    case None
    with g2 show ?thesis by (intro exI [of _ "[]"]) simp
  next
    case (Some packages)
    with g2 obtain b2 where
      "contig_loop conv k stp True packages (False, g1) = Inr (b2, g2)"
      by (auto simp: ReadContigsAndBuildHash_def split: sum.splits)
    from contig_loop_output_later [OF this] show ?thesis by simp
  qed
  then obtain es2 where o2: "output_edge_file g2 = output_edge_file g1 @ map EdgeWords es2" ..
  from ReadReadsAndProcess_output [OF g] obtain es3 where
    o3: "output_edge_file g = output_edge_file g2 @ map EdgeWords es3" ..
  from o1 o2 o3 have o: "output_edge_file g = ?h @ map EdgeWords (es1 @ es2 @ es3)"
    by simp
  have "filter is_header (output_edge_file g) = ?h"
    unfolding o by (simp add: filter_is_header_edges header_def del: map_append)
  with o show ?thesis by blast
qed

theorem header_written_once_witness:
  "\<exists>g. main (conversion 3 1) (\<lambda>m. []) 3 1 100
            [[\<lparr>seq = [0, 0, 1, 3, 2, 1], multiplicity = 7\<rparr>], []] None [] = Inr g
     \<and> output_edge_file g =
         [HeaderWord 4, HeaderWord 1, EdgeWords [3019898884], EdgeWords [1828716548]]
     \<and> filter is_header (output_edge_file g) = [HeaderWord 4, HeaderWord 1]"
proof -
  let ?run = "main (conversion 3 1) (\<lambda>m. []) 3 1 100
            [[\<lparr>seq = [0, 0, 1, 3, 2, 1], multiplicity = 7\<rparr>], []] None []"
  have "\<not> isl ?run" by code_simp
  then obtain g where g: "?run = Inr g" by (cases ?run) auto
  have "output_edge_file (projr ?run) =
      [HeaderWord 4, HeaderWord 1, EdgeWords [3019898884], EdgeWords [1828716548]]"
    by code_simp
  with g have o: "output_edge_file g =
      [HeaderWord 4, HeaderWord 1, EdgeWords [3019898884], EdgeWords [1828716548]]"
    by simp
  from header_written_once [OF g] g o show ?thesis by simp
qed

text \<open>
  The defect at an empty primary contig stream: with one additional contig the
  file holds two packed edges and no header.
\<close>

theorem header_missing_counterexample:
  "\<not> isl (main (conversion 3 1) (\<lambda>m. []) 3 1 100 []
            (Some [[\<lparr>seq = [0, 0, 1, 3, 2, 1], multiplicity = 7\<rparr>]]) [])
   \<and> output_edge_file (projr (main (conversion 3 1) (\<lambda>m. []) 3 1 100 []
            (Some [[\<lparr>seq = [0, 0, 1, 3, 2, 1], multiplicity = 7\<rparr>]]) []))
       = [EdgeWords [3019898884], EdgeWords [1828716548]]
   \<and> stream_of (output_edge_file (projr (main (conversion 3 1) (\<lambda>m. []) 3 1 100 []
            (Some [[\<lparr>seq = [0, 0, 1, 3, 2, 1], multiplicity = 7\<rparr>]]) [])))
       = [3019898884, 1828716548]"
  by code_simp

section \<open>The crucial k-mers\<close>

subsection \<open>Shifting bases into a k-mer\<close>

lemma length_ShiftAppend [simp]: "length (ShiftAppend c km) = length km"
  by (cases km) (simp_all add: ShiftAppend_def)

lemma length_ShiftPreappend [simp]: "length (ShiftPreappend c km) = length km"
  by (cases km) (simp_all add: ShiftPreappend_def)

lemma length_ReverseComplement [simp]: "length (ReverseComplement km) = length km"
  by (simp add: ReverseComplement_def)

lemma fold_ShiftAppend_upt:
  "m \<le> length km \<Longrightarrow>
     fold (\<lambda>j km. ShiftAppend (f j) km) [0..<m] km = drop m km @ map f [0..<m]"
proof (induction m)
  case 0
  show ?case by simp
next
  case (Suc m)
  then have "drop m km \<noteq> []" by simp
  then have "tl (drop m km @ map f [0..<m]) = drop (Suc m) km @ map f [0..<m]"
    by (simp add: drop_Suc tl_drop)
  with Suc show ?case by (simp add: ShiftAppend_def)
qed

lemma fold_ShiftAppend_full:
  "length km = n \<Longrightarrow> fold (\<lambda>j km. ShiftAppend (f j) km) [0..<n] km = map f [0..<n]"
  using fold_ShiftAppend_upt [of n km f] by simp

lemma prefix_kmer:
  "k \<le> length cs \<Longrightarrow> fold (\<lambda>j km. ShiftAppend (cs ! j) km) [0..<k] (Kmer k) = take k cs"
  by (simp add: fold_ShiftAppend_full Kmer_def list_eq_iff_nth_eq)

lemma suffix_kmer:
  assumes "k \<le> length cs" and "length km = k"
  shows "fold (\<lambda>j km. ShiftAppend (3 - cs ! (length cs - 1 - j)) km) [0..<k] km =
           ReverseComplement (drop (length cs - k) cs)"
  using assms
  by (simp add: fold_ShiftAppend_full ReverseComplement_def list_eq_iff_nth_eq rev_nth)

subsection \<open>Seeding\<close>

text \<open>The hints of a contig, as lines 286 to 291 and 300 to 304 build them.\<close>

definition fwd_hint :: "nat \<Rightarrow> nat \<Rightarrow> base list \<Rightarrow> error + 64 word" where
  "fwd_hint k stp cs = build_hint (\<lambda>j. cs ! (j + k)) stp (min stp (length cs - k))"

definition rev_hint :: "nat \<Rightarrow> nat \<Rightarrow> base list \<Rightarrow> error + 64 word" where
  "rev_hint k stp cs =
     build_hint (\<lambda>j. 3 - cs ! (length cs - k - 1 - j)) stp (min stp (length cs - k))"

lemma seed_contig_eq:
  "seed_contig k stp cs m =
     (if length cs < k then Inr m
      else case fwd_hint k stp cs of
             Inl e \<Rightarrow> Inl e
           | Inr s_seq \<Rightarrow>
               if length cs > k then
                 (case rev_hint k stp cs of
                    Inl e \<Rightarrow> Inl e
                  | Inr s_seq2 \<Rightarrow>
                      Inr (m(take k cs \<mapsto> s_seq,
                             ReverseComplement (drop (length cs - k) cs) \<mapsto> s_seq2)))
               else Inr (m(take k cs \<mapsto> s_seq)))"
proof (cases "length cs < k")
  case True
  then show ?thesis by (simp add: seed_contig_def)
next
  case False
  then have p: "fold (\<lambda>j km. ShiftAppend (cs ! j) km) [0..<k] (Kmer k) = take k cs"
    by (simp add: prefix_kmer)
  from False
  have s: "fold (\<lambda>j km. ShiftAppend (3 - cs ! (length cs - 1 - j)) km) [0..<k] (take k cs) =
             ReverseComplement (drop (length cs - k) cs)"
    by (intro suffix_kmer) simp_all
  show ?thesis
    unfolding seed_contig_def Let_def p s fwd_hint_def rev_hint_def
    by (simp split: sum.splits)
qed

text \<open>
  The leading prefix k-mer of a contig, and the reverse complement of its trailing suffix
  k-mer.
\<close>

definition prefix_key :: "nat \<Rightarrow> base list \<Rightarrow> kmer" where
  "prefix_key k cs = take k cs"

definition suffix_key :: "nat \<Rightarrow> base list \<Rightarrow> kmer" where
  "suffix_key k cs = ReverseComplement (drop (length cs - k) cs)"

text \<open>
  An entry of the map is the prefix k-mer of some contig with that contig's forward
  hint, or the reverse complement of the suffix k-mer of a contig longer than \<open>k\<close> with
  that contig's complemented hint.
\<close>

definition seeded_by :: "nat \<Rightarrow> nat \<Rightarrow> base list list \<Rightarrow> kmer \<Rightarrow> 64 word \<Rightarrow> bool" where
  "seeded_by k stp css key h =
     (\<exists>cs \<in> set css. k \<le> length cs \<and>
        ((key = prefix_key k cs \<and> fwd_hint k stp cs = Inr h) \<or>
         (k < length cs \<and> key = suffix_key k cs \<and> rev_hint k stp cs = Inr h)))"

lemma seeded_by_mono: "seeded_by k stp css key h \<Longrightarrow> set css \<subseteq> set css' \<Longrightarrow> seeded_by k stp css' key h"
  by (auto simp: seeded_by_def)

lemma seed_contig_keys:
  assumes "seed_contig k stp cs m = Inr m'"
  shows "dom m \<subseteq> dom m'"
    and "k \<le> length cs \<Longrightarrow> prefix_key k cs \<in> dom m'"
    and "k < length cs \<Longrightarrow> suffix_key k cs \<in> dom m'"
    and "k = length cs \<Longrightarrow> dom m' = insert (prefix_key k cs) (dom m)"
    and "m' key = Some h \<Longrightarrow> m key = Some h \<or> seeded_by k stp [cs] key h"
  using assms
  by (auto simp: seed_contig_eq prefix_key_def suffix_key_def seeded_by_def
      split: if_splits sum.splits)

lemma seed_package_keys:
  "seed_package k stp pkg m = Inr m' \<Longrightarrow>
     dom m \<subseteq> dom m'
     \<and> (\<forall>c \<in> set pkg. (k \<le> length (seq c) \<longrightarrow> prefix_key k (seq c) \<in> dom m')
                        \<and> (k < length (seq c) \<longrightarrow> suffix_key k (seq c) \<in> dom m'))
     \<and> (\<forall>key h. m' key = Some h \<longrightarrow> m key = Some h \<or> seeded_by k stp (map seq pkg) key h)"
proof (induction pkg arbitrary: m)
  case Nil
  then show ?case by simp
next
  case (Cons c pkg)
  from Cons.prems obtain m1 where
    c: "seed_contig k stp (seq c) m = Inr m1" and p: "seed_package k stp pkg m1 = Inr m'"
    by (auto split: sum.splits)
  note k1 = seed_contig_keys [OF c]
  note IH = Cons.IH [OF p]
  have "dom m \<subseteq> dom m'" using k1(1) IH by blast
  moreover have "(k \<le> length (seq c') \<longrightarrow> prefix_key k (seq c') \<in> dom m')
      \<and> (k < length (seq c') \<longrightarrow> suffix_key k (seq c') \<in> dom m')"
    if "c' \<in> set (c # pkg)" for c'
    using that k1(2,3) IH by auto
  moreover have "m key = Some h \<or> seeded_by k stp (map seq (c # pkg)) key h"
    if "m' key = Some h" for key h
  proof -
    from IH that have "m1 key = Some h \<or> seeded_by k stp (map seq pkg) key h" by blast
    then show ?thesis
    proof
      assume "m1 key = Some h"
      from k1(5) [OF this] show ?thesis
        by (auto intro: seeded_by_mono)
    next
      assume "seeded_by k stp (map seq pkg) key h"
      then show ?thesis by (auto intro: seeded_by_mono)
    qed
  qed
  ultimately show ?case by blast
qed



text \<open>What the primary pass guarantees about the map after the packages \<open>pkgs\<close>.\<close>

definition seeded :: "nat \<Rightarrow> nat \<Rightarrow> 'm contig list list \<Rightarrow> (kmer \<rightharpoonup> 64 word) \<Rightarrow> (kmer \<rightharpoonup> 64 word) \<Rightarrow> bool" where
  "seeded k stp pkgs m m' =
     (dom m \<subseteq> dom m'
      \<and> (\<forall>c \<in> set (concat pkgs).
            (k \<le> length (seq c) \<longrightarrow> prefix_key k (seq c) \<in> dom m')
            \<and> (k < length (seq c) \<longrightarrow> suffix_key k (seq c) \<in> dom m'))
      \<and> (\<forall>key h. m' key = Some h \<longrightarrow>
            m key = Some h \<or> seeded_by k stp (map seq (concat pkgs)) key h))"

lemma seeded_Nil: "seeded k stp [] m m"
  by (simp add: seeded_def)

lemma seeded_Nil2: "seeded k stp [[]] m m"
  by (simp add: seeded_def)

lemma seeded_Cons:
  assumes "seeded k stp [pkg] m m1" and "seeded k stp rest m1 m'"
  shows "seeded k stp (pkg # rest) m m'"
  unfolding seeded_def
proof (intro conjI ballI allI impI)
  show "dom m \<subseteq> dom m'" using assms by (auto simp: seeded_def)
next
  fix c assume "c \<in> set (concat (pkg # rest))" and "k \<le> length (seq c)"
  with assms show "prefix_key k (seq c) \<in> dom m'"
    unfolding seeded_def concat.simps set_append by blast
next
  fix c assume "c \<in> set (concat (pkg # rest))" and "k < length (seq c)"
  with assms show "suffix_key k (seq c) \<in> dom m'"
    unfolding seeded_def concat.simps set_append by blast
next
  fix key h assume "m' key = Some h"
  with assms(2) have "m1 key = Some h \<or> seeded_by k stp (map seq (concat rest)) key h"
    by (simp add: seeded_def)
  then show "m key = Some h \<or> seeded_by k stp (map seq (concat (pkg # rest))) key h"
  proof
    assume "m1 key = Some h"
    with assms(1) have "m key = Some h \<or> seeded_by k stp (map seq pkg) key h"
      by (simp add: seeded_def)
    then show ?thesis by (auto intro: seeded_by_mono)
  next
    assume "seeded_by k stp (map seq (concat rest)) key h"
    then show ?thesis by (auto intro: seeded_by_mono)
  qed
qed

lemma process_package_seeded:
  assumes "process_package conv k stp False pkg (b, g) = Inr (b', g')"
  shows "seeded k stp [pkg] (crusial_kmers g) (crusial_kmers g')"
proof -
  from assms obtain m where
    m: "seed_package k stp pkg (crusial_kmers g) = Inr m" and "crusial_kmers g' = m"
    by (auto simp: process_package_def Let_def split: sum.splits if_splits)
  with seed_package_keys [OF m] show ?thesis by (simp add: seeded_def)
qed

lemma contig_loop_seeded:
  "contig_loop conv k stp False pkgs (b, g) = Inr (b', g')
     \<Longrightarrow> seeded k stp pkgs (crusial_kmers g) (crusial_kmers g')"
proof (induction pkgs arbitrary: b g)
  case Nil
  then show ?case by (simp add: seeded_Nil)
next
  case (Cons pkg rest)
  show ?case
  proof (cases "rest = [] \<and> pkg = []")
    case True
    with Cons.prems show ?thesis by (simp add: seeded_Nil2)
  next
    case False
    with Cons.prems obtain b1 g1 where
      p: "process_package conv k stp False pkg (b, g) = Inr (b1, g1)" and
      l: "contig_loop conv k stp False rest (b1, g1) = Inr (b', g')"
      by (auto split: sum.splits)
    from seeded_Cons [OF process_package_seeded [OF p] Cons.IH [OF l]] show ?thesis .
  qed
qed

text \<open>
  C4, as amended: after the primary contig pass the leading prefix k-mer of every primary
  contig of length \<open>\<ge> k\<close> is a key of the crucial-k-mer map, and the reverse complement of
  the trailing suffix k-mer of every primary contig of length \<open>> k\<close> is a key; every
  entry of the map holds the forward hint of a contig with that prefix k-mer or the
  complemented hint of a contig longer than \<open>k\<close> with that reverse-complemented suffix
  k-mer (the last writer). A contig of length exactly \<open>k\<close> stores its prefix k-mer only.
\<close>

theorem crucial_kmers_seeded:
  assumes "ReadContigsAndBuildHash conv k stp False primary InitGlobalData = Inr g"
  shows "(\<forall>c \<in> set (concat primary).
            (k \<le> length (seq c) \<longrightarrow> prefix_key k (seq c) \<in> dom (crusial_kmers g))
            \<and> (k < length (seq c) \<longrightarrow> suffix_key k (seq c) \<in> dom (crusial_kmers g)))
         \<and> (\<forall>key h. crusial_kmers g key = Some h \<longrightarrow>
               seeded_by k stp (map seq (concat primary)) key h)"
proof -
  from assms obtain b where
    "contig_loop conv k stp False primary (True, InitGlobalData) = Inr (b, g)"
    by (auto simp: ReadContigsAndBuildHash_def split: sum.splits)
  from contig_loop_seeded [OF this]
  have "seeded k stp primary Map.empty (crusial_kmers g)"
    by (simp add: InitGlobalData_def)
  then show ?thesis by (simp add: seeded_def)
qed

theorem crucial_kmers_seeded_witness:
  "\<exists>g. ReadContigsAndBuildHash (conversion 3 1) 3 1 False
          [[\<lparr>seq = [0, 0, 1, 3, 2, 1], multiplicity = 7\<rparr>]] InitGlobalData = Inr g
     \<and> prefix_key 3 [0, 0, 1, 3, 2, 1] = [0, 0, 1]
     \<and> suffix_key 3 [0, 0, 1, 3, 2, 1] = [2, 1, 0]
     \<and> [0, 0, 1] \<in> dom (crusial_kmers g) \<and> [2, 1, 0] \<in> dom (crusial_kmers g)
     \<and> crusial_kmers g [0, 0, 1] = Some 13835058055282163713
     \<and> seeded_by 3 1 [[0, 0, 1, 3, 2, 1]] [0, 0, 1] 13835058055282163713"
proof -
  let ?c = "\<lparr>seq = [0, 0, 1, 3, 2, 1], multiplicity = 7\<rparr>"
  let ?run = "ReadContigsAndBuildHash (conversion 3 1) 3 1 False [[?c]] InitGlobalData"
  have "\<not> isl ?run" by code_simp
  then obtain g where g: "?run = Inr g" by (cases ?run) auto
  have "crusial_kmers (projr ?run) [0, 0, 1] = Some 13835058055282163713" by code_simp
  with g have v: "crusial_kmers g [0, 0, 1] = Some 13835058055282163713" by simp
  have p: "prefix_key 3 [0, 0, 1, 3, 2, 1] = [0, 0, 1]" by (simp add: prefix_key_def)
  have s: "suffix_key 3 [0, 0, 1, 3, 2, 1] = [2, 1, 0]"
    by (simp add: suffix_key_def ReverseComplement_def)
  from crucial_kmers_seeded [OF g] v p s
  have "[0, 0, 1] \<in> dom (crusial_kmers g)" and "[2, 1, 0] \<in> dom (crusial_kmers g)"
    and "seeded_by 3 1 [[0, 0, 1, 3, 2, 1]] [0, 0, 1] 13835058055282163713"
    by auto
  with g v p s show ?thesis by blast
qed

text \<open>
  C4 as stated fails for a contig of length exactly \<open>k\<close>: the contig \<^verbatim>\<open>AAC\<close> with
  \<open>k = 3\<close> stores \<^verbatim>\<open>AAC\<close>, but the reverse complement \<^verbatim>\<open>GTT\<close> of its suffix k-mer is
  not a key.
\<close>

theorem crucial_kmers_short_contig_counterexample:
  "\<not> isl (ReadContigsAndBuildHash (conversion 3 1) 3 1 False
            [[\<lparr>seq = [0, 0, 1], multiplicity = 7\<rparr>]] InitGlobalData)
   \<and> suffix_key 3 [0, 0, 1] = [2, 3, 3]
   \<and> crusial_kmers (projr (ReadContigsAndBuildHash (conversion 3 1) 3 1 False
            [[\<lparr>seq = [0, 0, 1], multiplicity = 7\<rparr>]] InitGlobalData)) [0, 0, 1] = Some 0
   \<and> crusial_kmers (projr (ReadContigsAndBuildHash (conversion 3 1) 3 1 False
            [[\<lparr>seq = [0, 0, 1], multiplicity = 7\<rparr>]] InitGlobalData)) [2, 3, 3] = None"
  by code_simp

section \<open>Phase 1: every index is in range\<close>

lemma CharAt_in_range: "0 \<le> i \<Longrightarrow> i < int (length r) \<Longrightarrow> CharAt r i = Inr (r ! nat i)"
  by (simp add: CharAt_def)

lemma CharAt_Inr: "CharAt r i = Inr c \<Longrightarrow> 0 \<le> i \<and> i < int (length r) \<and> c = r ! nat i"
  by (auto simp: CharAt_def split: if_splits)

lemma CharAt_Inl: "CharAt r i = Inl e \<Longrightarrow> e = IndexOutOfBounds \<and> \<not> (0 \<le> i \<and> i < int (length r))"
  by (auto simp: CharAt_def split: if_splits)

lemma set_exist_in_range:
  "0 \<le> i \<Longrightarrow> i < int (length ex) \<Longrightarrow> set_exist ex i = Inr (ex[nat i := True])"
  by (simp add: set_exist_def)

lemma set_exist_Inr: "set_exist ex i = Inr ex' \<Longrightarrow> ex' = ex[nat i := True] \<and> 0 \<le> i \<and> i < int (length ex)"
  by (auto simp: set_exist_def split: if_splits)

lemma get_exist_in_range:
  "0 \<le> i \<Longrightarrow> i < int (length ex) \<Longrightarrow> get_exist ex i = Inr (ex ! nat i)"
  by (simp add: get_exist_def)

lemma hint_base_Inl: "hint_base s_seq j = Inl e \<Longrightarrow> e = ShiftOutOfRange"
  by (auto simp: hint_base_def split: if_splits)

lemma fwd_loop_stop:
  "\<not> (j < n \<and> cp + int k + j < int (length r)) \<Longrightarrow> fwd_loop r k s_seq n cp j ex = Inr (j, ex)"
  by (subst fwd_loop.simps) (simp only: if_False)

lemma fwd_loop_step:
  assumes "j < n" and "cp + int k + j < int (length r)"
    and "CharAt r (cp + int k + j) = Inr c" and "hint_base s_seq j = Inr h"
  shows "fwd_loop r k s_seq n cp j ex =
           (if ucast c = h then
              (case set_exist ex (cp + j + 1) of
                 Inl e \<Rightarrow> Inl e
               | Inr ex' \<Rightarrow> fwd_loop r k s_seq n cp (j + 1) ex')
            else Inr (j, ex))"
  using assms by (subst fwd_loop.simps) simp

lemma fwd_loop_shift_error:
  assumes "j < n" and "cp + int k + j < int (length r)"
    and "CharAt r (cp + int k + j) = Inr c" and "hint_base s_seq j = Inl e"
  shows "fwd_loop r k s_seq n cp j ex = Inl e"
  using assms by (subst fwd_loop.simps) simp

lemma fwd_loop_bounds:
  assumes "0 < k" and "0 \<le> cp" and "0 \<le> j" and "length ex = length r"
  shows "fwd_loop r k s_seq n cp j ex \<noteq> Inl IndexOutOfBounds
         \<and> (\<forall>j' ex'. fwd_loop r k s_seq n cp j ex = Inr (j', ex') \<longrightarrow> length ex' = length r)"
  using assms
proof (induction r k s_seq n cp j ex rule: fwd_loop.induct)
  case (1 r k s_seq n cp j ex)
  show ?case
  proof (cases "j < n \<and> cp + int k + j < int (length r)")
    case False
    with "1.prems" show ?thesis by (simp add: fwd_loop_stop)
  next
    case True
    with "1.prems" have c: "CharAt r (cp + int k + j) = Inr (r ! nat (cp + int k + j))"
      by (intro CharAt_in_range) simp_all
    from True "1.prems" have s: "set_exist ex (cp + j + 1) = Inr (ex[nat (cp + j + 1) := True])"
      by (intro set_exist_in_range) simp_all
    show ?thesis
    proof (cases "hint_base s_seq j")
      case (Inl e)
      with True c hint_base_Inl [OF Inl] show ?thesis
        by (simp add: fwd_loop_shift_error)
    next
      case (Inr h)
      show ?thesis
      proof (cases "ucast (r ! nat (cp + int k + j)) = h")
        case False
        with True c Inr "1.prems" show ?thesis
          by (simp add: fwd_loop_step)
      next
        case eq: True
        from "1.prems" have
          "fwd_loop r k s_seq n cp (j + 1) (ex[nat (cp + j + 1) := True]) \<noteq> Inl IndexOutOfBounds
           \<and> (\<forall>j' ex'. fwd_loop r k s_seq n cp (j + 1) (ex[nat (cp + j + 1) := True]) = Inr (j', ex')
                \<longrightarrow> length ex' = length r)"
          by (intro "1.IH" [OF True c Inr eq s]) simp_all
        with True c Inr eq s show ?thesis
          by (simp add: fwd_loop_step)
      qed
    qed
  qed
qed

lemma bwd_loop_stop:
  "\<not> (j < n \<and> cp - 1 - j > lmp) \<Longrightarrow> bwd_loop r s_seq n cp lmp j ex = Inr (j, ex)"
  by (subst bwd_loop.simps) (simp only: if_False)

lemma bwd_loop_step:
  assumes "j < n" and "cp - 1 - j > lmp"
    and "CharAt r (cp - 1 - j) = Inr c" and "hint_base s_seq j = Inr h"
  shows "bwd_loop r s_seq n cp lmp j ex =
           (if ucast (3 - c) = h then
              (case set_exist ex (cp - 1 - j) of
                 Inl e \<Rightarrow> Inl e
               | Inr ex' \<Rightarrow> bwd_loop r s_seq n cp lmp (j + 1) ex')
            else Inr (j, ex))"
  using assms by (subst bwd_loop.simps) simp

lemma bwd_loop_shift_error:
  assumes "j < n" and "cp - 1 - j > lmp"
    and "CharAt r (cp - 1 - j) = Inr c" and "hint_base s_seq j = Inl e"
  shows "bwd_loop r s_seq n cp lmp j ex = Inl e"
  using assms by (subst bwd_loop.simps) simp

lemma bwd_loop_bounds:
  assumes "- 1 \<le> lmp" and "cp \<le> int (length r)" and "0 \<le> j" and "length ex = length r"
  shows "bwd_loop r s_seq n cp lmp j ex \<noteq> Inl IndexOutOfBounds
         \<and> (\<forall>j' ex'. bwd_loop r s_seq n cp lmp j ex = Inr (j', ex') \<longrightarrow> length ex' = length r)"
  using assms
proof (induction r s_seq n cp lmp j ex rule: bwd_loop.induct)
  case (1 r s_seq n cp lmp j ex)
  show ?case
  proof (cases "j < n \<and> cp - 1 - j > lmp")
    case False
    with "1.prems" show ?thesis by (simp add: bwd_loop_stop)
  next
    case True
    with "1.prems" have c: "CharAt r (cp - 1 - j) = Inr (r ! nat (cp - 1 - j))"
      by (intro CharAt_in_range) simp_all
    from True "1.prems" have s: "set_exist ex (cp - 1 - j) = Inr (ex[nat (cp - 1 - j) := True])"
      by (intro set_exist_in_range) simp_all
    show ?thesis
    proof (cases "hint_base s_seq j")
      case (Inl e)
      with True c hint_base_Inl [OF Inl] show ?thesis
        by (simp add: bwd_loop_shift_error)
    next
      case (Inr h)
      show ?thesis
      proof (cases "ucast (3 - r ! nat (cp - 1 - j)) = h")
        case False
        with True c Inr "1.prems" show ?thesis
          by (simp add: bwd_loop_step)
      next
        case eq: True
        from "1.prems" have
          "bwd_loop r s_seq n cp lmp (j + 1) (ex[nat (cp - 1 - j) := True]) \<noteq> Inl IndexOutOfBounds
           \<and> (\<forall>j' ex'. bwd_loop r s_seq n cp lmp (j + 1) (ex[nat (cp - 1 - j) := True]) = Inr (j', ex')
                \<longrightarrow> length ex' = length r)"
          by (intro "1.IH" [OF True c Inr eq s]) simp_all
        with True c Inr eq s show ?thesis
          by (simp add: bwd_loop_step)
      qed
    qed
  qed
qed


lemma append_chars_in_range:
  "(\<And>p. p \<in> set ps \<Longrightarrow> 0 \<le> p \<and> p < int (length r))
     \<Longrightarrow> append_chars r ps km = Inr (fold (\<lambda>p km. ShiftAppend (r ! nat p) km) ps km)"
  by (induction ps arbitrary: km) (simp_all add: CharAt_in_range)

lemma append_both_in_range:
  "(\<And>p. p \<in> set ps \<Longrightarrow> 0 \<le> p \<and> p < int (length r))
     \<Longrightarrow> append_both r ps ks =
          Inr (fold (\<lambda>p ks. (ShiftAppend (r ! nat p) (fst ks), ShiftPreappend (3 - r ! nat p) (snd ks)))
                 ps ks)"
  by (induction ps arbitrary: ks) (simp_all add: CharAt_in_range)

text \<open>The invariant of the scan: the vector has the length of the read, the positions are in range.\<close>

definition scan_inv :: "base list \<Rightarrow> scan_state \<Rightarrow> bool" where
  "scan_inv r st =
     (length (kmer_exist st) = length r \<and> 0 \<le> cur_pos st \<and> - 1 \<le> last_marked_pos st)"

lemma probe_bounds:
  assumes "0 < k" and "scan_inv r st" and "cur_pos st + int k \<le> int (length r)"
  shows "probe C3 k r st \<noteq> Inl IndexOutOfBounds"
    and "probe C3 k r st = Inr (st', np) \<Longrightarrow> scan_inv r st'"
proof -
  from assms have g: "get_exist (kmer_exist st) (cur_pos st) = Inr (kmer_exist st ! nat (cur_pos st))"
    by (intro get_exist_in_range) (simp_all add: scan_inv_def)
  from assms
  have s: "set_exist (kmer_exist st) (cur_pos st) = Inr ((kmer_exist st)[nat (cur_pos st) := True])"
    by (intro set_exist_in_range) (simp_all add: scan_inv_def)
  let ?ex = "(kmer_exist st)[nat (cur_pos st) := True]"
  from assms have l: "length ?ex = length r" and c: "0 \<le> cur_pos st"
    and m: "- 1 \<le> last_marked_pos st" and u: "cur_pos st \<le> int (length r)"
    by (simp_all add: scan_inv_def)
  note f = fwd_loop_bounds [OF assms(1) c order_refl l]
  note b = bwd_loop_bounds [OF m u order_refl l]
  show "probe C3 k r st \<noteq> Inl IndexOutOfBounds"
    using f [THEN conjunct1] b [THEN conjunct1]
    by (auto simp: probe_def Let_def g s split: option.splits sum.splits prod.splits)
  assume p: "probe C3 k r st = Inr (st', np)"
  show "scan_inv r st'"
  proof (cases "kmer_exist st ! nat (cur_pos st)")
    case True
    with p g assms(2) show ?thesis by (simp add: probe_def Let_def)
  next
    case unmarked: False
    show ?thesis
    proof (cases "C3 (kmer st)")
      case (Some s_seq)
      with p g s unmarked obtain j ex' where
        fl: "fwd_loop r k s_seq (uint (s_seq AND 63)) (cur_pos st) 0 ?ex = Inr (j, ex')" and
        st': "st' = st\<lparr>kmer_exist := ex', last_marked_pos := cur_pos st + j\<rparr>"
        by (auto simp: probe_def Let_def split: sum.splits)
      from f [THEN conjunct2] fl have "length ex' = length r" by blast
      moreover from fwd_loop_mono [OF fl] have "0 \<le> j" .
      ultimately show ?thesis using st' c by (simp add: scan_inv_def)
    next
      case None
      show ?thesis
      proof (cases "C3 (rev_kmer st)")
        case none: None
        with p g unmarked None assms(2) show ?thesis by (simp add: probe_def Let_def)
      next
        case (Some s_seq)
        with p g s unmarked None obtain j ex' where
          bl: "bwd_loop r s_seq (uint (s_seq AND 63)) (cur_pos st) (last_marked_pos st) 0 ?ex
                 = Inr (j, ex')" and
          st': "st' = st\<lparr>kmer_exist := ex'\<rparr>"
          by (auto simp: probe_def Let_def split: sum.splits)
        from b [THEN conjunct2] bl have "length ex' = length r" by blast
        with st' c m show ?thesis by (simp add: scan_inv_def)
      qed
    qed
  qed
qed

lemma advance_bounds:
  assumes "0 < k" and "scan_inv r st" and "next_pos + int k \<le> int (length r)"
  shows "\<exists>st'. advance k r next_pos st = Inr st' \<and> scan_inv r st'"
proof -
  have "0 \<le> p \<and> p < int (length r)"
    if "p \<in> set (map (\<lambda>p. p + int k - 1) [cur_pos st + 1..next_pos])" for p
    using that assms by (auto simp: scan_inv_def)
  from append_both_in_range [of _ r, OF this]
  obtain ks where
    "append_both r (map (\<lambda>p. p + int k - 1) [cur_pos st + 1..next_pos]) (kmer st, rev_kmer st) = Inr ks"
    by blast
  with assms show ?thesis
    by (cases ks) (auto simp: advance_def scan_inv_def)
qed

lemma phase1_loop_stop:
  "\<not> cur_pos st + int k \<le> int (length r) \<Longrightarrow> phase1_loop C3 k r st = Inr st"
  by (subst phase1_loop.simps) simp

lemma phase1_loop_error:
  "cur_pos st + int k \<le> int (length r) \<Longrightarrow> probe C3 k r st = Inl e
     \<Longrightarrow> phase1_loop C3 k r st = Inl e"
  by (subst phase1_loop.simps) simp

lemma phase1_loop_last:
  "cur_pos st + int k \<le> int (length r) \<Longrightarrow> probe C3 k r st = Inr (st', np)
     \<Longrightarrow> \<not> np + int k \<le> int (length r) \<Longrightarrow> phase1_loop C3 k r st = Inr st'"
  by (subst phase1_loop.simps) simp

lemma phase1_loop_step:
  "cur_pos st + int k \<le> int (length r) \<Longrightarrow> probe C3 k r st = Inr (st', np)
     \<Longrightarrow> np + int k \<le> int (length r)
     \<Longrightarrow> phase1_loop C3 k r st =
          (case advance k r np st' of Inl e \<Rightarrow> Inl e | Inr st'' \<Rightarrow> phase1_loop C3 k r st'')"
  by (subst phase1_loop.simps) simp

lemma phase1_loop_bounds:
  assumes "0 < k" and "scan_inv r st"
  shows "phase1_loop C3 k r st \<noteq> Inl IndexOutOfBounds
         \<and> (\<forall>st'. phase1_loop C3 k r st = Inr st' \<longrightarrow> scan_inv r st')"
  using assms
proof (induction C3 k r st rule: phase1_loop.induct)
  case (1 C3 k r st)
  show ?case
  proof (cases "cur_pos st + int k \<le> int (length r)")
    case False
    with "1.prems" show ?thesis by (simp add: phase1_loop_stop)
  next
    case True
    note pb = probe_bounds [OF "1.prems" True]
    show ?thesis
    proof (cases "probe C3 k r st")
      case (Inl e)
      with pb(1) True show ?thesis
        by (auto simp: phase1_loop_error)
    next
      case (Inr res)
      obtain st1 np where res: "res = (st1, np)" by (cases res)
      with Inr have p: "probe C3 k r st = Inr (st1, np)" by simp
      from pb(2) [OF p] have inv1: "scan_inv r st1" .
      show ?thesis
      proof (cases "np + int k \<le> int (length r)")
        case False
        with True p inv1 show ?thesis
          by (simp add: phase1_loop_last)
      next
        case np: True
        from advance_bounds [OF "1.prems"(1) inv1 np] obtain st2 where
          a: "advance k r np st1 = Inr st2" and inv2: "scan_inv r st2" by blast
        from "1.IH" [OF True Inr res [symmetric] np a "1.prems"(1) inv2]
        have "phase1_loop C3 k r st2 \<noteq> Inl IndexOutOfBounds
              \<and> (\<forall>st'. phase1_loop C3 k r st2 = Inr st' \<longrightarrow> scan_inv r st')" .
        with True p np a show ?thesis
          by (simp add: phase1_loop_step)
      qed
    qed
  qed
qed

lemma phase1_scan:
  assumes "0 < k" and "k \<le> length r"
  shows "phase1 C3 k r \<noteq> Inl IndexOutOfBounds
         \<and> (\<forall>st. phase1 C3 k r = Inr st \<longrightarrow> length (kmer_exist st) = length r)"
proof -
  have "0 \<le> p \<and> p < int (length r)" if "p \<in> set [0..int k - 1]" for p
    using that assms by auto
  from append_chars_in_range [of _ r, OF this]
  obtain km where km: "append_chars r [0..int k - 1] (Kmer k) = Inr km" by blast
  let ?st = "\<lparr>kmer_exist = replicate (length r) False, cur_pos = 0, last_marked_pos = - 1,
              kmer = km, rev_kmer = ReverseComplement km\<rparr>"
  have "scan_inv r ?st" by (simp add: scan_inv_def)
  from phase1_loop_bounds [OF assms(1) this, of C3] km show ?thesis
    by (simp add: phase1_def scan_inv_def)
qed

text \<open>
  C10: for every read of length \<open>L \<ge> k + s + 1\<close> (and \<open>k > 0\<close>, which \<open>ParseOptions\<close>
  enforces) every index that phase 1 uses to read a base of the read or to read or write
  \<^verbatim>\<open>kmer_exist\<close> lies in \<open>[0, L)\<close>: the checked scan never takes its out-of-bounds
  branch, and the vector keeps the length of the read.
\<close>

theorem phase1_in_bounds:
  assumes "0 < k" and "k + stp + 1 \<le> length r"
  shows "phase1 C3 k r \<noteq> Inl IndexOutOfBounds
         \<and> (\<forall>st. phase1 C3 k r = Inr st \<longrightarrow> length (kmer_exist st) = length r)"
  using assms by (intro phase1_scan) simp_all

theorem phase1_in_bounds_witness:
  "(0 :: nat) < 3 \<and> 3 + 1 + 1 \<le> length [0, 0, 1, 3, 2, 1 :: base]
   \<and> phase1 [[0, 0, 1] \<mapsto> 13835058055282163713, [2, 1, 0] \<mapsto> 9223372036854775809] 3
        [0, 0, 1, 3, 2, 1] \<noteq> Inl IndexOutOfBounds
   \<and> (\<exists>st. phase1 [[0, 0, 1] \<mapsto> 13835058055282163713, [2, 1, 0] \<mapsto> 9223372036854775809] 3
        [0, 0, 1, 3, 2, 1] = Inr st \<and> kmer_exist st = [True, True, True, True, False, False]
        \<and> length (kmer_exist st) = length [0, 0, 1, 3, 2, 1 :: base])"
proof -
  let ?r = "[0, 0, 1, 3, 2, 1] :: base list"
  let ?C3 = "[[0, 0, 1] \<mapsto> 13835058055282163713, [2, 1, 0] \<mapsto> 9223372036854775809]
      :: kmer \<rightharpoonup> 64 word"
  have 1: "(0 :: nat) < 3" by simp
  have 2: "3 + 1 + 1 \<le> length ?r" by simp
  note t = phase1_in_bounds [OF 1 2, of ?C3]
  have "\<not> isl (phase1 ?C3 3 ?r)" by code_simp
  then obtain st where st: "phase1 ?C3 3 ?r = Inr st" by (cases "phase1 ?C3 3 ?r") auto
  have "kmer_exist (projr (phase1 ?C3 3 ?r)) = [True, True, True, True, False, False]"
    by code_simp
  with st have "kmer_exist st = [True, True, True, True, False, False]" by simp
  with t st 1 2 show ?thesis by simp
qed

section \<open>Phase 1: the reverse-complement anchor\<close>

text \<open>
  The hint as the spec describes it: base \<open>j\<close> sits at bit position \<open>(31 - j) * 2\<close>, the
  length in the low 6 bits.
\<close>

definition hint_bases :: "64 word \<Rightarrow> nat \<Rightarrow> base" where
  "hint_bases s_seq j = ucast (drop_bit ((31 - j) * 2) s_seq)"

definition hint_len :: "64 word \<Rightarrow> nat" where
  "hint_len s_seq = unat (s_seq AND 63)"

lemma three_eq_mask: "(3 :: 'a :: len word) = mask 2"
  by (simp add: mask_eq_exp_minus_1)

lemma two_bits_match:
  fixes b :: base and s :: "64 word"
  assumes "n \<le> 62"
  shows "(ucast b = signed_drop_bit n s AND 3) = (b = ucast (drop_bit n s))"
proof
  assume eq: "(ucast b :: 64 word) = signed_drop_bit n s AND 3"
  have "b = ucast (ucast b :: 64 word)"
    by (rule bit_word_eqI) (simp add: bit_simps)
  also have "\<dots> = ucast (signed_drop_bit n s AND 3 :: 64 word)" by (simp only: eq)
  also have "\<dots> = (ucast (drop_bit n s) :: base)"
    using assms unfolding three_eq_mask by (intro bit_word_eqI) (auto simp: bit_simps)
  finally show "b = ucast (drop_bit n s)" .
next
  assume "b = ucast (drop_bit n s)"
  then have "(ucast b :: 64 word) = ucast (ucast (drop_bit n s) :: base)" by simp
  also have "\<dots> = signed_drop_bit n s AND 3"
    using assms unfolding three_eq_mask
    by (intro bit_word_eqI) (auto simp: bit_simps)
  finally show "(ucast b :: 64 word) = signed_drop_bit n s AND 3" .
qed

lemma hint_base_match:
  fixes b :: base
  assumes "j \<le> 31"
  shows "hint_base s_seq (int j) = Inr (signed_drop_bit ((31 - j) * 2) s_seq AND 3)"
    and "(ucast b = signed_drop_bit ((31 - j) * 2) s_seq AND 3) = (b = hint_bases s_seq j)"
proof -
  from assms have "nat ((31 - int j) * 2) = (31 - j) * 2" by simp
  with assms show "hint_base s_seq (int j) = Inr (signed_drop_bit ((31 - j) * 2) s_seq AND 3)"
    by (simp add: hint_base_def)
  show "(ucast b = signed_drop_bit ((31 - j) * 2) s_seq AND 3) = (b = hint_bases s_seq j)"
    unfolding hint_bases_def by (rule two_bits_match) simp
qed

text \<open>The vector \<open>ex\<close> with every position \<open>i\<close>, \<open>lo \<le> i < hi\<close>, set.\<close>

definition mark_range :: "bool list \<Rightarrow> int \<Rightarrow> int \<Rightarrow> bool list" where
  "mark_range ex lo hi = map (\<lambda>i. ex ! i \<or> (lo \<le> int i \<and> int i < hi)) [0..<length ex]"

lemma length_mark_range [simp]: "length (mark_range ex lo hi) = length ex"
  by (simp add: mark_range_def)

lemma mark_range_empty: "hi \<le> lo \<Longrightarrow> mark_range ex lo hi = ex"
  by (rule nth_equalityI) (auto simp: mark_range_def)

lemma mark_range_update:
  assumes "0 \<le> hi" and "hi < int (length ex)" and "lo \<le> hi"
  shows "mark_range (ex[nat hi := True]) lo hi = mark_range ex lo (hi + 1)"
proof (rule nth_equalityI)
  show "length (mark_range (ex[nat hi := True]) lo hi) = length (mark_range ex lo (hi + 1))"
    by simp
next
  fix i assume "i < length (mark_range (ex[nat hi := True]) lo hi)"
  then have i: "i < length ex" by simp
  show "mark_range (ex[nat hi := True]) lo hi ! i = mark_range ex lo (hi + 1) ! i"
  proof (cases "i = nat hi")
    case True
    with i assms show ?thesis by (auto simp: mark_range_def)
  next
    case False
    with i assms show ?thesis by (auto simp: mark_range_def nth_list_update)
  qed
qed

text \<open>
  The backward branch in the words of the spec: for \<open>j = 0, \<dots>, len - 1\<close>, while
  \<open>p - 1 - j > last_marked\<close>, hint base \<open>j\<close> is compared with \<open>3 - C(p - 1 - j)\<close>; the
  scan stops at the first mismatch. \<open>rev_matched\<close> is the number of matches.
\<close>

definition rev_match_at :: "base list \<Rightarrow> 64 word \<Rightarrow> int \<Rightarrow> int \<Rightarrow> nat \<Rightarrow> bool" where
  "rev_match_at r s_seq p lmp j =
     (p - 1 - int j > lmp \<and> hint_bases s_seq j = 3 - r ! nat (p - 1 - int j))"

definition rev_matched :: "base list \<Rightarrow> 64 word \<Rightarrow> int \<Rightarrow> int \<Rightarrow> nat" where
  "rev_matched r s_seq p lmp =
     length (takeWhile (rev_match_at r s_seq p lmp) [0..<hint_len s_seq])"

lemma bwd_loop_spec:
  assumes "n \<le> 32" and "- 1 \<le> lmp" and "cp \<le> int (length r)" and "length ex = length r"
    and "j \<le> n"
  shows "bwd_loop r s_seq (int n) cp lmp (int j) ex =
           Inr (int (j + length (takeWhile (rev_match_at r s_seq cp lmp) [j..<n])),
                mark_range ex
                  (cp - int (j + length (takeWhile (rev_match_at r s_seq cp lmp) [j..<n])))
                  (cp - int j))"
  using assms(4,5)
proof (induction "n - j" arbitrary: j ex)
  case 0
  then have "j = n" by simp
  then show ?case by (simp add: bwd_loop_stop mark_range_empty)
next
  case (Suc d)
  then have jn: "j < n" by simp
  then have upt: "[j..<n] = j # [Suc j..<n]" by (simp add: upt_conv_Cons)
  show ?case
  proof (cases "cp - 1 - int j > lmp")
    case False
    then have "\<not> rev_match_at r s_seq cp lmp j" by (simp add: rev_match_at_def)
    with False upt show ?thesis by (simp add: bwd_loop_stop mark_range_empty)
  next
    case True
    with assms(2,3) have rng: "0 \<le> cp - 1 - int j" "cp - 1 - int j < int (length r)"
      by simp_all
    let ?c = "r ! nat (cp - 1 - int j)"
    from rng have c: "CharAt r (cp - 1 - int j) = Inr ?c" by (rule CharAt_in_range)
    from jn assms(1) have j31: "j \<le> 31" by simp
    note h = hint_base_match [OF j31, where s_seq = s_seq]
    from jn True have cond: "int j < int n" "cp - 1 - int j > lmp" by simp_all
    show ?thesis
    proof (cases "hint_bases s_seq j = 3 - ?c")
      case False
      then have "\<not> rev_match_at r s_seq cp lmp j" by (simp add: rev_match_at_def)
      moreover from False have "ucast (3 - ?c) \<noteq> signed_drop_bit ((31 - j) * 2) s_seq AND 3"
        by (simp add: h(2))
      ultimately show ?thesis
        using upt by (simp add: bwd_loop_step [OF cond c h(1)] mark_range_empty)
    next
      case match: True
      with True have m: "rev_match_at r s_seq cp lmp j" by (simp add: rev_match_at_def)
      from match have eq: "ucast (3 - ?c) = signed_drop_bit ((31 - j) * 2) s_seq AND 3"
        by (simp add: h(2))
      let ?ex = "ex[nat (cp - 1 - int j) := True]"
      from rng Suc.prems have s: "set_exist ex (cp - 1 - int j) = Inr ?ex"
        by (intro set_exist_in_range) simp_all
      let ?m = "length (takeWhile (rev_match_at r s_seq cp lmp) [Suc j..<n])"
      from Suc.hyps(2) jn have d: "d = n - Suc j" by simp
      from Suc.prems jn have "length ?ex = length r" "Suc j \<le> n" by simp_all
      from Suc.hyps(1) [OF d this]
      have IH: "bwd_loop r s_seq (int n) cp lmp (int (Suc j)) ?ex =
           Inr (int (Suc j + ?m), mark_range ?ex (cp - int (Suc j + ?m)) (cp - int (Suc j)))" .
      from rng Suc.prems
      have "mark_range ?ex (cp - int (Suc j + ?m)) (cp - 1 - int j) =
            mark_range ex (cp - int (Suc j + ?m)) (cp - 1 - int j + 1)"
        by (intro mark_range_update) simp_all
      then have "mark_range ?ex (cp - int (Suc j + ?m)) (cp - int (Suc j)) =
            mark_range ex (cp - int (j + Suc ?m)) (cp - int j)"
        by (simp add: algebra_simps)
      with IH have "bwd_loop r s_seq (int n) cp lmp (int j + 1) ?ex =
           Inr (int (j + Suc ?m), mark_range ex (cp - int (j + Suc ?m)) (cp - int j))"
        by (simp add: add.commute)
      with m upt eq s show ?thesis
        by (simp add: bwd_loop_step [OF cond c h(1)])
    qed
  qed
qed

text \<open>The vector after the backward branch at \<open>p\<close>: \<open>p\<close> and the matched positions below it are set.\<close>

definition rev_marked :: "base list \<Rightarrow> 64 word \<Rightarrow> int \<Rightarrow> int \<Rightarrow> bool list \<Rightarrow> bool list" where
  "rev_marked r s_seq p lmp ex = mark_range ex (p - int (rev_matched r s_seq p lmp)) (p + 1)"

text \<open>
  C8: when the forward k-mer at the unmarked position \<open>p\<close> is not in the crucial-k-mer map
  but \<open>rev_kmer\<close> is, with hint \<open>(bases, len)\<close>, the probe sets \<open>exist[p]\<close>, then for
  \<open>j = 0, \<dots>, len - 1\<close>, while \<open>p - 1 - j > last_marked\<close>, compares \<open>bases[j]\<close> with
  \<open>3 - C(p - 1 - j)\<close>, sets \<open>exist[p - 1 - j]\<close> on a match and stops at the first mismatch;
  \<open>last_marked\<close> (like every other field) is unchanged and the next probe position is
  \<open>p + 1\<close>.
\<close>

theorem probe_reverse_hit:
  assumes "scan_inv r st" and "cur_pos st < int (length r)"
    and "\<not> kmer_exist st ! nat (cur_pos st)"
    and "C3 (kmer st) = None" and "C3 (rev_kmer st) = Some s_seq"
    and "hint_len s_seq \<le> 32"
  shows "probe C3 k r st =
           Inr (st\<lparr>kmer_exist :=
                     rev_marked r s_seq (cur_pos st) (last_marked_pos st) (kmer_exist st)\<rparr>,
                cur_pos st + 1)"
proof -
  let ?p = "cur_pos st" and ?ex = "kmer_exist st"
  from assms(1,2) have p: "0 \<le> ?p" "?p < int (length ?ex)" and len: "length ?ex = length r"
    and lmp: "- 1 \<le> last_marked_pos st"
    by (simp_all add: scan_inv_def)
  from p assms(3) have g: "get_exist ?ex ?p = Inr False" by (simp add: get_exist_in_range)
  from p have s: "set_exist ?ex ?p = Inr (?ex[nat ?p := True])" by (rule set_exist_in_range)
  have n: "uint (s_seq AND 63) = int (hint_len s_seq)" by (simp add: hint_len_def)
  let ?m = "rev_matched r s_seq ?p (last_marked_pos st)"
  from assms(2) len
  have "bwd_loop r s_seq (int (hint_len s_seq)) ?p (last_marked_pos st) (int 0) (?ex[nat ?p := True]) =
          Inr (int (0 + ?m), mark_range (?ex[nat ?p := True]) (?p - int (0 + ?m)) (?p - int 0))"
    unfolding rev_matched_def by (intro bwd_loop_spec assms(6) lmp) simp_all
  moreover from p have "mark_range (?ex[nat ?p := True]) (?p - int ?m) ?p =
      mark_range ?ex (?p - int ?m) (?p + 1)"
    by (intro mark_range_update) simp_all
  ultimately have "bwd_loop r s_seq (uint (s_seq AND 63)) ?p (last_marked_pos st) 0 (?ex[nat ?p := True]) =
          Inr (int ?m, rev_marked r s_seq ?p (last_marked_pos st) ?ex)"
    by (simp add: n rev_marked_def)
  with g s assms(4,5) show ?thesis by (simp add: probe_def Let_def)
qed

theorem probe_reverse_hit_witness:
  "probe [[2, 1, 0] \<mapsto> 9223372036854775809] 3 [0, 0, 1, 3, 2, 1]
     \<lparr>kmer_exist = [True, True, False, False, False, False], cur_pos = 3, last_marked_pos = 1,
      kmer = [3, 2, 1], rev_kmer = [2, 1, 0]\<rparr>
   = Inr (\<lparr>kmer_exist = [True, True, True, True, False, False], cur_pos = 3, last_marked_pos = 1,
      kmer = [3, 2, 1], rev_kmer = [2, 1, 0]\<rparr>, 4)"
proof -
  let ?st = "\<lparr>kmer_exist = [True, True, False, False, False, False], cur_pos = 3,
      last_marked_pos = 1, kmer = [3, 2, 1], rev_kmer = [2 :: base, 1, 0]\<rparr>"
  let ?r = "[0, 0, 1, 3, 2, 1] :: base list"
  let ?C3 = "[[2, 1, 0] \<mapsto> 9223372036854775809] :: kmer \<rightharpoonup> 64 word"
  have 1: "scan_inv ?r ?st" by (simp add: scan_inv_def)
  have 2: "cur_pos ?st < int (length ?r)" by simp
  have 3: "\<not> kmer_exist ?st ! nat (cur_pos ?st)" by simp
  have 4: "?C3 (kmer ?st) = None" by simp
  have 5: "?C3 (rev_kmer ?st) = Some 9223372036854775809" by simp
  have 6: "hint_len 9223372036854775809 \<le> 32" by (simp add: hint_len_def)
  have "rev_marked ?r 9223372036854775809 3 1 [True, True, False, False, False, False] =
      [True, True, True, True, False, False]"
    by code_simp
  then have x: "?st\<lparr>kmer_exist := rev_marked ?r 9223372036854775809 (cur_pos ?st)
        (last_marked_pos ?st) (kmer_exist ?st)\<rparr> =
      \<lparr>kmer_exist = [True, True, True, True, False, False], cur_pos = 3, last_marked_pos = 1,
       kmer = [3, 2, 1], rev_kmer = [2, 1, 0]\<rparr>"
    by simp
  have y: "cur_pos ?st + 1 = 4" by simp
  show ?thesis using probe_reverse_hit [OF 1 2 3 4 5 6, of 3] unfolding x y .
qed

section \<open>Phase 2: the emitted keys\<close>

subsection \<open>Reverse complement, order and shifting\<close>

lemma complement_involution: "3 - (3 - c) = (c :: base)"
  by simp

lemma ReverseComplement_involution: "ReverseComplement (ReverseComplement km) = km"
  by (simp add: ReverseComplement_def rev_map o_def)

lemma ReverseComplement_append:
  "ReverseComplement (xs @ ys) = ReverseComplement ys @ ReverseComplement xs"
  by (simp add: ReverseComplement_def)

lemma kmer_less_asym: "kmer_less a b \<Longrightarrow> \<not> kmer_less b a"
  by (induction a b rule: kmer_less.induct) auto

lemma kmer_less_irrefl: "\<not> kmer_less a a"
  by (induction a) auto

text \<open>The canonical form of a k-mer: the smaller of the k-mer and its reverse complement.\<close>

definition canonical_key :: "kmer \<Rightarrow> kmer" where
  "canonical_key w = (if kmer_less w (ReverseComplement w) then w else ReverseComplement w)"

definition canonical :: "kmer \<Rightarrow> bool" where
  "canonical key = (\<not> kmer_less (ReverseComplement key) key)"

lemma canonical_canonical_key: "canonical (canonical_key w)"
  by (auto simp: canonical_def canonical_key_def ReverseComplement_involution
      dest: kmer_less_asym)

lemma ReverseComplement_Nil [simp]: "ReverseComplement [] = []"
  by (simp add: ReverseComplement_def)

lemma fold_ShiftAppend_chars:
  "fold ShiftAppend cs km = (if km = [] then [] else drop (length cs) (km @ cs))"
proof (induction cs arbitrary: km)
  case Nil
  show ?case by simp
next
  case (Cons c cs)
  have "fold ShiftAppend (c # cs) km = fold ShiftAppend cs (ShiftAppend c km)" by simp
  also have "\<dots> = (if ShiftAppend c km = [] then []
                    else drop (length cs) (ShiftAppend c km @ cs))"
    by (rule Cons.IH)
  also have "\<dots> = (if km = [] then [] else drop (length (c # cs)) (km @ c # cs))"
    by (cases km) (simp_all add: ShiftAppend_def)
  finally show ?case .
qed

lemma fold_ShiftPreappend_chars:
  "fold (\<lambda>c rk. ShiftPreappend (3 - c) rk) cs rk =
     (if rk = [] then [] else take (length rk) (ReverseComplement cs @ rk))"
proof (induction cs arbitrary: rk)
  case Nil
  show ?case by simp
next
  case (Cons c cs)
  have "fold (\<lambda>c rk. ShiftPreappend (3 - c) rk) (c # cs) rk =
        fold (\<lambda>c rk. ShiftPreappend (3 - c) rk) cs (ShiftPreappend (3 - c) rk)"
    by simp
  also have "\<dots> = (if ShiftPreappend (3 - c) rk = [] then []
       else take (length (ShiftPreappend (3 - c) rk))
              (ReverseComplement cs @ ShiftPreappend (3 - c) rk))"
    by (rule Cons.IH)
  also have "\<dots> = (if rk = [] then [] else take (length rk) (ReverseComplement (c # cs) @ rk))"
  proof (cases rk rule: rev_cases)
    case Nil
    then show ?thesis by (simp add: ShiftPreappend_def)
  next
    case (snoc ys y)
    have "take m ((3 - c) # ys) = take m ((3 - c) # ys @ [y])" if "m \<le> Suc (length ys)" for m
      using that take_append [of m "(3 - c) # ys" "[y]"] by simp
    with snoc show ?thesis by (simp add: ShiftPreappend_def ReverseComplement_def)
  qed
  finally show ?case .
qed

text \<open>The bases of the read at the positions \<open>a, \<dots>, b\<close>.\<close>

lemma chars_upto:
  assumes "0 \<le> a" and "b < int (length r)"
  shows "map (\<lambda>p. r ! nat p) [a..b] = take (nat (b - a + 1)) (drop (nat a) r)"
proof (rule nth_equalityI)
  from assms show "length (map (\<lambda>p. r ! nat p) [a..b]) = length (take (nat (b - a + 1)) (drop (nat a) r))"
    by auto
next
  fix i assume "i < length (map (\<lambda>p. r ! nat p) [a..b])"
  then have i: "int i < b - a + 1" by simp
  with assms have "[a..b] ! i = a + int i" by (intro nth_upto) simp
  with i assms show "map (\<lambda>p. r ! nat p) [a..b] ! i = take (nat (b - a + 1)) (drop (nat a) r) ! i"
    by (simp add: nat_add_distrib)
qed

subsection \<open>Windows of the read\<close>

lemma map_add_upto: "map (\<lambda>x. x + c) [lo..hi] = [lo + c..hi + c]"
proof (rule nth_equalityI)
  show "length (map (\<lambda>x. x + c) [lo..hi]) = length [lo + c..hi + c]" by simp
next
  fix i assume "i < length (map (\<lambda>x. x + c) [lo..hi])"
  then have "int i < hi - lo + 1" by simp
  then show "map (\<lambda>x. x + c) [lo..hi] ! i = [lo + c..hi + c] ! i"
    by (simp add: nth_upto)
qed

lemma append_chars_upto:
  assumes "0 \<le> a" and "b < int (length r)"
  shows "append_chars r [a..b] km =
           Inr (if km = [] then []
                else drop (nat (b - a + 1)) (km @ take (nat (b - a + 1)) (drop (nat a) r)))"
proof -
  have "append_chars r [a..b] km = Inr (fold (\<lambda>p km. ShiftAppend (r ! nat p) km) [a..b] km)"
    using assms by (intro append_chars_in_range) auto
  also have "fold (\<lambda>p km. ShiftAppend (r ! nat p) km) [a..b] km =
      fold ShiftAppend (map (\<lambda>p. r ! nat p) [a..b]) km"
    by (simp add: fold_map o_def)
  also have "\<dots> = (if km = [] then []
                else drop (nat (b - a + 1)) (km @ take (nat (b - a + 1)) (drop (nat a) r)))"
    using assms by (auto simp: fold_ShiftAppend_chars chars_upto)
  finally show ?thesis .
qed

lemma append_both_upto:
  assumes "0 \<le> a" and "b < int (length r)"
  shows "append_both r [a..b] (km, rk) =
           Inr (if km = [] then []
                else drop (nat (b - a + 1)) (km @ take (nat (b - a + 1)) (drop (nat a) r)),
                if rk = [] then []
                else take (length rk)
                       (ReverseComplement (take (nat (b - a + 1)) (drop (nat a) r)) @ rk))"
proof -
  have fold_pair: "fold (\<lambda>c ks. (ShiftAppend c (fst ks), ShiftPreappend (3 - c) (snd ks))) cs (x, y) =
      (fold ShiftAppend cs x, fold (\<lambda>c rk. ShiftPreappend (3 - c) rk) cs y)" for cs x y
    by (induction cs arbitrary: x y) simp_all
  have "append_both r [a..b] (km, rk) =
      Inr (fold (\<lambda>p ks. (ShiftAppend (r ! nat p) (fst ks), ShiftPreappend (3 - r ! nat p) (snd ks)))
             [a..b] (km, rk))"
    using assms by (intro append_both_in_range) auto
  also have "fold (\<lambda>p ks. (ShiftAppend (r ! nat p) (fst ks), ShiftPreappend (3 - r ! nat p) (snd ks)))
             [a..b] (km, rk) =
      fold (\<lambda>c ks. (ShiftAppend c (fst ks), ShiftPreappend (3 - c) (snd ks)))
        (map (\<lambda>p. r ! nat p) [a..b]) (km, rk)"
    by (simp add: fold_map o_def)
  also have "\<dots> = (if km = [] then []
                else drop (nat (b - a + 1)) (km @ take (nat (b - a + 1)) (drop (nat a) r)),
                if rk = [] then []
                else take (length rk)
                       (ReverseComplement (take (nat (b - a + 1)) (drop (nat a) r)) @ rk))"
    using assms
    by (auto simp: fold_pair fold_ShiftAppend_chars fold_ShiftPreappend_chars chars_upto)
  finally show ?thesis .
qed

text \<open>
  The \<open>(k + s + 1)\<close>-mer that ends with the k-mer at scan position \<open>j\<close>: the bases
  \<open>j - s - 1, \<dots>, j + k - 1\<close> of the read.
\<close>

definition window :: "nat \<Rightarrow> nat \<Rightarrow> base list \<Rightarrow> nat \<Rightarrow> kmer" where
  "window k stp r j = take (k + stp + 1) (drop (j - stp - 1) r)"

lemma length_window:
  "stp + 1 \<le> j \<Longrightarrow> j + k \<le> length r \<Longrightarrow> length (window k stp r j) = k + stp + 1"
  by (simp add: window_def)

lemma window_fresh:
  assumes "stp + 1 \<le> j" and "j + k \<le> length r" and "length km = k + stp + 1"
  shows "drop (j + k) (km @ take (j + k) r) = window k stp r j"
proof -
  from assms have "drop (j + k) (km @ take (j + k) r) = drop (j - stp - 1) (take (j + k) r)"
    by simp
  also from assms have "\<dots> = take (k + stp + 1) (drop (j - stp - 1) r)"
    by (simp add: drop_take)
  finally show ?thesis by (simp add: window_def)
qed

lemma window_shift:
  assumes "stp + 1 \<le> l" and "l \<le> j" and "j + k \<le> length r"
  shows "drop (j - l) (window k stp r l @ take (j - l) (drop (l + k) r)) = window k stp r j"
proof -
  let ?xs = "drop (l - stp - 1) r"
  from assms have "drop (l + k) r = drop (k + stp + 1) ?xs" by (simp add: add.commute)
  then have "window k stp r l @ take (j - l) (drop (l + k) r) = take (k + stp + 1 + (j - l)) ?xs"
    by (simp only: window_def take_add)
  then have "drop (j - l) (window k stp r l @ take (j - l) (drop (l + k) r)) =
      take (k + stp + 1) (drop (j - l) ?xs)"
    by (simp add: drop_take)
  also from assms have "drop (j - l) ?xs = drop (j - stp - 1) r" by simp
  finally show ?thesis by (simp add: window_def)
qed

lemma take_ReverseComplement:
  "take n (ReverseComplement xs) = ReverseComplement (drop (length xs - n) xs)"
  by (simp add: ReverseComplement_def take_map take_rev)

text \<open>
  The invariant of the emission loop before scan position \<open>j\<close>: both k-mers have size
  \<open>k + s + 1\<close>, and after an emission at \<open>l\<close> they hold the window of \<open>l\<close> and its
  reverse complement.
\<close>

definition emit_inv :: "nat \<Rightarrow> nat \<Rightarrow> base list \<Rightarrow> nat \<Rightarrow> emit_state \<Rightarrow> bool" where
  "emit_inv k stp r j st =
     (length (edge_kmer st) = k + stp + 1 \<and> length (edge_rev_kmer st) = k + stp + 1 \<and>
      (last_j st = - int k \<or>
       (\<exists>l. last_j st = int l \<and> stp + 1 \<le> l \<and> l < j \<and> edge_kmer st = window k stp r l \<and>
            edge_rev_kmer st = ReverseComplement (window k stp r l))))"

lemma window_take:
  assumes "stp + 1 \<le> j" and "j + k \<le> length r"
  shows "drop (j - stp - 1) (take (j + k) r) = window k stp r j"
  using assms by (simp add: window_def drop_take)

lemma append_chars_count:
  assumes "0 \<le> a" and "b < int (length r)" and "nat (b - a + 1) = c" and "nat a = a'"
    and "km \<noteq> []"
  shows "append_chars r [a..b] km = Inr (drop c (km @ take c (drop a' r)))"
  using append_chars_upto [OF assms(1,2), of km] assms(3-) by simp

lemma append_both_count:
  assumes "0 \<le> a" and "b < int (length r)" and "nat (b - a + 1) = c" and "nat a = a'"
    and "km \<noteq> []" and "rk \<noteq> []"
  shows "append_both r [a..b] (km, rk) =
           Inr (drop c (km @ take c (drop a' r)),
                take (length rk) (ReverseComplement (take c (drop a' r)) @ rk))"
  using append_both_upto [OF assms(1,2), of km rk] assms(3-) by simp

lemma resync_positions:
  "map (\<lambda>x. x + int k - 1) [lj + 1..int j] = [lj + int k..int j + int k - 1]"
proof -
  have "map (\<lambda>x. x + int k - 1) [lj + 1..int j] = map (\<lambda>x. x + (int k - 1)) [lj + 1..int j]"
    by (simp add: algebra_simps)
  also have "\<dots> = [lj + 1 + (int k - 1)..int j + (int k - 1)]" by (rule map_add_upto)
  finally show ?thesis by (simp add: algebra_simps)
qed

lemma resync_window:
  assumes inv: "emit_inv k stp r j st" and j: "stp + 1 \<le> j" "j + k \<le> length r" and k: "0 < k"
  shows "resync k stp r (int j) st =
           Inr (window k stp r j, ReverseComplement (window k stp r j))"
proof -
  let ?n = "k + stp + 1"
  let ?km = "edge_kmer st" and ?rk = "edge_rev_kmer st"
  from inv have len: "length ?km = ?n" "length ?rk = ?n" by (simp_all add: emit_inv_def)
  then have ne: "?km \<noteq> []" "?rk \<noteq> []" by auto
  have rebuild: "append_chars r [int j - int stp - 1..int j + int k - 1] ?km =
      Inr (window k stp r j)"
  proof -
    have "append_chars r [int j - int stp - 1..int j + int k - 1] ?km =
        Inr (drop ?n (?km @ take ?n (drop (j - stp - 1) r)))"
      using j k ne by (intro append_chars_count) simp_all
    with len show ?thesis by (simp add: window_def)
  qed
  from inv consider
    (fresh) "last_j st = - int k" |
    (after) l where "last_j st = int l" "stp + 1 \<le> l" "l < j" "?km = window k stp r l"
      "?rk = ReverseComplement (window k stp r l)"
    by (auto simp: emit_inv_def)
  then show ?thesis
  proof cases
    case fresh
    let ?cs = "take (j + k) r"
    from j have lcs: "length ?cs = j + k" by simp
    from fresh j k have rng: "0 \<le> last_j st + int k" "int j + int k - 1 < int (length r)"
      and cnt: "nat (int j + int k - 1 - (last_j st + int k) + 1) = j + k"
      and a: "nat (last_j st + int k) = 0"
      by simp_all
    have w: "drop (j + k) (?km @ ?cs) = window k stp r j"
      using j len by (intro window_fresh) simp_all
    have "take ?n (ReverseComplement ?cs @ ?rk) = take ?n (ReverseComplement ?cs)"
      using j lcs by simp
    also have "\<dots> = ReverseComplement (drop (length ?cs - ?n) ?cs)"
      by (rule take_ReverseComplement)
    also have "drop (length ?cs - ?n) ?cs = window k stp r j"
      using window_take [OF j] j by (simp add: lcs)
    finally have rv: "take ?n (ReverseComplement ?cs @ ?rk) = ReverseComplement (window k stp r j)" .
    from fresh j have not2: "\<not> int j - last_j st < int k + int stp + 1" by simp
    show ?thesis
    proof (cases "int j - last_j st < 8")
      case True
      have "append_both r [last_j st + int k..int j + int k - 1] (?km, ?rk) =
          Inr (drop (j + k) (?km @ take (j + k) (drop 0 r)),
               take (length ?rk) (ReverseComplement (take (j + k) (drop 0 r)) @ ?rk))"
        using rng cnt a ne by (intro append_both_count)
      with w rv len have "append_both r [last_j st + int k..int j + int k - 1] (?km, ?rk) =
          Inr (window k stp r j, ReverseComplement (window k stp r j))"
        by simp
      with True show ?thesis by (simp add: resync_def resync_positions)
    next
      case False
      with not2 rebuild show ?thesis by (simp add: resync_def)
    qed
  next
    case after
    let ?cs = "take (j - l) (drop (l + k) r)"
    from after j have lcs: "length ?cs = j - l" by simp
    from after j k have rng: "0 \<le> last_j st + int k" "int j + int k - 1 < int (length r)"
      and cnt: "nat (int j + int k - 1 - (last_j st + int k) + 1) = j - l"
      and a: "nat (last_j st + int k) = l + k"
      by (simp_all add: nat_add_distrib)
    from after j have w: "drop (j - l) (window k stp r l @ ?cs) = window k stp r j"
      by (intro window_shift) simp_all
    have "take ?n (ReverseComplement ?cs @ ReverseComplement (window k stp r l)) =
        take ?n (ReverseComplement (window k stp r l @ ?cs))"
      by (simp add: ReverseComplement_append)
    also have "\<dots> = ReverseComplement (drop (length (window k stp r l @ ?cs) - ?n)
                        (window k stp r l @ ?cs))"
      by (rule take_ReverseComplement)
    also from after len lcs have "length (window k stp r l @ ?cs) - ?n = j - l"
      by (metis add_diff_cancel_left' length_append)
    finally have rv: "take ?n (ReverseComplement ?cs @ ReverseComplement (window k stp r l)) =
        ReverseComplement (window k stp r j)"
      using w by simp
    have "append_chars r [last_j st + int k..int j + int k - 1] ?km =
        Inr (drop (j - l) (?km @ take (j - l) (drop (l + k) r)))"
      using rng cnt a ne by (intro append_chars_count)
    with w after(4) have ac:
      "append_chars r [last_j st + int k..int j + int k - 1] ?km = Inr (window k stp r j)"
      by simp
    have "append_both r [last_j st + int k..int j + int k - 1] (?km, ?rk) =
        Inr (drop (j - l) (?km @ take (j - l) (drop (l + k) r)),
             take (length ?rk) (ReverseComplement (take (j - l) (drop (l + k) r)) @ ?rk))"
      using rng cnt a ne by (intro append_both_count)
    with w rv len after(4,5) have ab:
      "append_both r [last_j st + int k..int j + int k - 1] (?km, ?rk) =
          Inr (window k stp r j, ReverseComplement (window k stp r j))"
      by simp
    from ac ab rebuild show ?thesis by (simp add: resync_def resync_positions)
  qed
qed

subsection \<open>The emission loop\<close>

text \<open>The length of the run of labelled positions that ends at \<open>j\<close> (the value of \<^verbatim>\<open>acc_exist\<close>).\<close>

fun run_len :: "bool list \<Rightarrow> nat \<Rightarrow> nat" where
  "run_len ex 0 = (if ex ! 0 then 1 else 0)"
| "run_len ex (Suc j) = (if ex ! Suc j then run_len ex j + 1 else 0)"

definition acc_before :: "bool list \<Rightarrow> nat \<Rightarrow> nat" where
  "acc_before ex j = (case j of 0 \<Rightarrow> 0 | Suc i \<Rightarrow> run_len ex i)"

lemma run_len_step: "run_len ex j = (if ex ! j then acc_before ex j + 1 else 0)"
  by (cases j) (simp_all add: acc_before_def)

lemma run_len_le: "run_len ex j \<le> Suc j"
  by (induction j) auto

text \<open>
  Scan position \<open>j\<close> is supported: the \<open>s + 2\<close> positions \<open>j - s - 1, \<dots>, j\<close> are all
  labelled.
\<close>

definition supported :: "nat \<Rightarrow> bool list \<Rightarrow> nat \<Rightarrow> bool" where
  "supported stp ex j = (stp + 1 \<le> j \<and> list_all (\<lambda>i. ex ! i) [j - stp - 1..<j + 1])"

lemma run_len_ge_iff:
  "m \<le> run_len ex j \<longleftrightarrow> m = 0 \<or> (m \<le> Suc j \<and> list_all (\<lambda>i. ex ! i) [Suc j - m..<Suc j])"
proof (induction j arbitrary: m)
  case 0
  show ?case by (cases m) (auto simp: list_all_iff)
next
  case (Suc j)
  show ?case
  proof (cases m)
    case 0
    then show ?thesis by simp
  next
    case (Suc m')
    have "[Suc (Suc j) - Suc m'..<Suc (Suc j)] = [Suc j - m'..<Suc j] @ [Suc j]"
      by simp
    then have split: "list_all (\<lambda>i. ex ! i) [Suc (Suc j) - Suc m'..<Suc (Suc j)] \<longleftrightarrow>
        list_all (\<lambda>i. ex ! i) [Suc j - m'..<Suc j] \<and> ex ! Suc j"
      by (simp only: list_all_append) simp
    show ?thesis
      unfolding Suc split using Suc.IH [of m'] by auto
  qed
qed

lemma supported_iff: "supported stp ex j \<longleftrightarrow> stp + 2 \<le> run_len ex j"
  unfolding supported_def run_len_ge_iff [of "stp + 2" ex j]
  by (cases "stp + 1 \<le> j") (auto simp: Suc_diff_le)

text \<open>The keys that phase 2 increments from scan position \<open>j0\<close> on, in order.\<close>

definition emitted :: "nat \<Rightarrow> nat \<Rightarrow> base list \<Rightarrow> bool list \<Rightarrow> nat \<Rightarrow> kmer list" where
  "emitted k stp r ex j0 =
     map (\<lambda>j. canonical_key (window k stp r j))
       (filter (supported stp ex) [j0..<length r - k + 1])"

lemma emit_step_spec:
  assumes inv: "emit_inv k stp r j st" and acc: "acc_exist st = int (acc_before ex j)"
    and j: "j + k \<le> length r" and k: "0 < k" and len: "length ex = length r"
  shows "emit_step k stp r ex (int j) st =
           Inr (if supported stp ex j then
                  \<lparr>edge_kmer = window k stp r j,
                   edge_rev_kmer = ReverseComplement (window k stp r j),
                   last_j = int j, acc_exist = int (run_len ex j), aligned = True,
                   edges = increment (canonical_key (window k stp r j)) (edges st),
                   log = log st @ [canonical_key (window k stp r j)]\<rparr>
                else st\<lparr>acc_exist := int (run_len ex j)\<rparr>)"
proof -
  from j k len have g: "get_exist ex (int j) = Inr (ex ! j)"
    by (simp add: get_exist_def)
  have a: "(if ex ! j then acc_exist st + 1 else 0) = int (run_len ex j)"
    by (simp add: acc run_len_step)
  show ?thesis
  proof (cases "supported stp ex j")
    case True
    then have ge: "int stp + 2 \<le> int (run_len ex j)" by (simp add: supported_iff)
    from True have "stp + 1 \<le> j" by (simp add: supported_def)
    from resync_window [OF inv this j k] True ge show ?thesis
      by (simp add: emit_step_def g a Let_def canonical_key_def)
  next
    case False
    then have "\<not> int stp + 2 \<le> int (run_len ex j)" by (simp add: supported_iff)
    with False show ?thesis by (simp add: emit_step_def g a Let_def)
  qed
qed

lemma emit_step_inv:
  assumes inv: "emit_inv k stp r j st" and j: "j + k \<le> length r"
  shows "emit_inv k stp r (Suc j)
           (if supported stp ex j then
                  \<lparr>edge_kmer = window k stp r j,
                   edge_rev_kmer = ReverseComplement (window k stp r j),
                   last_j = int j, acc_exist = a, aligned = True,
                   edges = e, log = l\<rparr>
                else st\<lparr>acc_exist := a\<rparr>)"
proof (cases "supported stp ex j")
  case True
  then have "stp + 1 \<le> j" by (simp add: supported_def)
  with True j show ?thesis by (simp add: emit_inv_def length_window)
next
  case False
  with inv show ?thesis by (auto simp: emit_inv_def)
qed

lemma emitted_rec:
  assumes "j0 + k \<le> length r"
  shows "emitted k stp r ex j0 =
           (if supported stp ex j0 then [canonical_key (window k stp r j0)] else [])
           @ emitted k stp r ex (Suc j0)"
proof -
  from assms have "[j0..<length r - k + 1] = j0 # [Suc j0..<length r - k + 1]"
    by (intro upt_conv_Cons) simp
  then show ?thesis by (simp add: emitted_def)
qed

lemma emit_loop_spec:
  assumes k: "0 < k" and len: "length ex = length r" and kl: "k \<le> length r"
  shows "emit_inv k stp r j0 st \<Longrightarrow> acc_exist st = int (acc_before ex j0)
     \<Longrightarrow> j0 \<le> length r - k + 1
     \<Longrightarrow> \<exists>st'. emit_loop k stp r ex [int j0..int (length r) - int k] st = Inr st'
           \<and> log st' = log st @ emitted k stp r ex j0
           \<and> edges st' = fold increment (emitted k stp r ex j0) (edges st)
           \<and> aligned st' = (aligned st \<or> emitted k stp r ex j0 \<noteq> [])"
proof (induction "length r - k + 1 - j0" arbitrary: j0 st)
  case 0
  with kl have "j0 = length r - k + 1" by simp
  with kl have "[int j0..int (length r) - int k] = []" and "emitted k stp r ex j0 = []"
    by (simp_all add: emitted_def)
  then show ?case by simp
next
  case (Suc d)
  from Suc.hyps(2) kl have j: "j0 + k \<le> length r" by simp
  with kl have "int j0 \<le> int (length r) - int k" by simp
  then have upto: "[int j0..int (length r) - int k] = int j0 # [int (Suc j0)..int (length r) - int k]"
    by (simp add: upto_rec1 add.commute)
  let ?st1 = "if supported stp ex j0 then
                  \<lparr>edge_kmer = window k stp r j0,
                   edge_rev_kmer = ReverseComplement (window k stp r j0),
                   last_j = int j0, acc_exist = int (run_len ex j0), aligned = True,
                   edges = increment (canonical_key (window k stp r j0)) (edges st),
                   log = log st @ [canonical_key (window k stp r j0)]\<rparr>
                else st\<lparr>acc_exist := int (run_len ex j0)\<rparr>"
  from emit_step_spec [OF Suc.prems(1,2) j k len]
  have step: "emit_step k stp r ex (int j0) st = Inr ?st1" .
  have inv1: "emit_inv k stp r (Suc j0) ?st1"
    by (rule emit_step_inv [OF Suc.prems(1) j])
  have acc1: "acc_exist ?st1 = int (acc_before ex (Suc j0))"
    by (simp add: acc_before_def)
  from Suc.hyps(2) have d: "d = length r - k + 1 - Suc j0" by simp
  from j have "Suc j0 \<le> length r - k + 1" by simp
  from Suc.hyps(1) [OF d inv1 acc1 this] obtain st' where
    l: "emit_loop k stp r ex [int (Suc j0)..int (length r) - int k] ?st1 = Inr st'" and
    lg: "log st' = log ?st1 @ emitted k stp r ex (Suc j0)" and
    ed: "edges st' = fold increment (emitted k stp r ex (Suc j0)) (edges ?st1)" and
    al: "aligned st' = (aligned ?st1 \<or> emitted k stp r ex (Suc j0) \<noteq> [])"
    by blast
  from l step upto
  have "emit_loop k stp r ex [int j0..int (length r) - int k] st = Inr st'"
    by simp
  moreover from lg have "log st' = log st @ emitted k stp r ex j0"
    by (simp add: emitted_rec [OF j])
  moreover from ed have "edges st' = fold increment (emitted k stp r ex j0) (edges st)"
    by (simp add: emitted_rec [OF j])
  moreover from al have "aligned st' = (aligned st \<or> emitted k stp r ex j0 \<noteq> [])"
    by (simp add: emitted_rec [OF j])
  ultimately show ?case by blast
qed

lemma length_resize [simp]: "length (resize n km) = n"
  by (simp add: resize_def)

text \<open>What one read does to the shared state, given the labelling \<open>ex\<close> of phase 1.\<close>

lemma process_read_spec:
  assumes k: "0 < k" and L: "k + stp + 1 \<le> length r" and m: "int (length r) \<le> max_len"
    and p: "phase1 (crusial_kmers g) k r = Inr st" and len: "length (kmer_exist st) = length r"
  shows "process_read k stp max_len r g =
           Inr (g\<lparr>iterative_edges :=
                     fold increment (emitted k stp r (kmer_exist st) 0) (iterative_edges g),
                   increment_log := increment_log g @ emitted k stp r (kmer_exist st) 0\<rparr>,
                emitted k stp r (kmer_exist st) 0 \<noteq> [])"
proof -
  let ?st0 = "\<lparr>edge_kmer = resize (k + stp + 1) (kmer st),
               edge_rev_kmer = resize (k + stp + 1) (rev_kmer st),
               last_j = - int k, acc_exist = 0, aligned = False,
               edges = iterative_edges g, log = increment_log g\<rparr>"
  have inv: "emit_inv k stp r 0 ?st0" by (simp add: emit_inv_def)
  have acc: "acc_exist ?st0 = int (acc_before (kmer_exist st) 0)" by (simp add: acc_before_def)
  from L have kl: "k \<le> length r" by simp
  from emit_loop_spec [OF k len kl inv acc] obtain st' where
    "emit_loop k stp r (kmer_exist st) [int 0..int (length r) - int k] ?st0 = Inr st'"
    "log st' = log ?st0 @ emitted k stp r (kmer_exist st) 0"
    "edges st' = fold increment (emitted k stp r (kmer_exist st) 0) (edges ?st0)"
    "aligned st' = (aligned ?st0 \<or> emitted k stp r (kmer_exist st) 0 \<noteq> [])"
    by auto
  with L m p show ?thesis by (simp add: process_read_def)
qed

subsection \<open>The increments of one read\<close>

lemma length_canonical_key [simp]: "length (canonical_key w) = length w"
  by (simp add: canonical_key_def)

lemma supported_bound: "supported stp ex j \<Longrightarrow> stp + 1 \<le> j"
  by (simp add: supported_def)

lemma length_filter_supported: "length (filter (supported stp ex) [0..<N]) \<le> N - (stp + 1)"
proof (induction N)
  case 0
  show ?case by simp
next
  case (Suc N)
  show ?case
  proof (cases "supported stp ex N")
    case True
    from supported_bound [OF True] Suc True show ?thesis by simp
  next
    case False
    with Suc show ?thesis by simp
  qed
qed

lemma length_emitted: "length (emitted k stp r ex 0) \<le> length r - (k + stp + 1) + 1"
  using length_filter_supported [of stp ex "length r - k + 1"]
  by (simp add: emitted_def del: upt_Suc)

lemma filter_ge_upt: "filter (\<lambda>j. a \<le> j) [0..<N] = [a..<N]"
  by (induction N) auto

lemma emitted_all:
  assumes all: "list_all (\<lambda>i. ex ! i) [0..<length r - k + 1]" and L: "k + stp + 1 \<le> length r"
  shows "emitted k stp r ex 0 =
           map (\<lambda>p. canonical_key (take (k + stp + 1) (drop p r))) [0..<length r - (k + stp + 1) + 1]"
proof -
  let ?N = "length r - k + 1"
  from all have ex: "ex ! i" if "i < ?N" for i
    using that by (simp add: list_all_iff del: upt_Suc)
  have sup: "supported stp ex j \<longleftrightarrow> stp + 1 \<le> j" if "j \<in> set [0..<?N]" for j
  proof
    assume "supported stp ex j"
    then show "stp + 1 \<le> j" by (rule supported_bound)
  next
    assume "stp + 1 \<le> j"
    moreover from that have "j < ?N" by (simp del: upt_Suc)
    ultimately show "supported stp ex j"
      by (auto simp: supported_def list_all_iff intro: ex simp del: upt_Suc)
  qed
  have "filter (supported stp ex) [0..<?N] = filter (\<lambda>j. stp + 1 \<le> j) [0..<?N]"
    by (rule filter_cong [OF refl sup])
  also have "\<dots> = [stp + 1..<?N]" by (rule filter_ge_upt)
  also have "\<dots> = map (\<lambda>p. p + (stp + 1)) [0..<length r - (k + stp + 1) + 1]"
  proof -
    from L have "?N = length r - (k + stp + 1) + 1 + (stp + 1)" by simp
    then have "[stp + 1..<?N] = [stp + 1..<length r - (k + stp + 1) + 1 + (stp + 1)]"
      by (rule arg_cong)
    also have "\<dots> = map (\<lambda>p. p + (stp + 1)) [0..<length r - (k + stp + 1) + 1]"
      by (rule map_add_upt [symmetric])
    finally show ?thesis .
  qed
  finally have f: "filter (supported stp ex) [0..<?N] =
      map (\<lambda>p. p + (stp + 1)) [0..<length r - (k + stp + 1) + 1]" .
  show ?thesis
    unfolding emitted_def f by (simp add: window_def o_def del: upt_Suc)
qed

text \<open>
  The keys that the read pass increments for one read: none for a read shorter than
  \<open>k + s + 1\<close>, otherwise the canonical keys of the windows at the supported positions of
  the labelling that phase 1 computes.
\<close>

definition read_keys :: "(kmer \<rightharpoonup> 64 word) \<Rightarrow> nat \<Rightarrow> nat \<Rightarrow> base list \<Rightarrow> kmer list" where
  "read_keys C3 k stp r =
     (if length r < k + stp + 1 then []
      else case phase1 C3 k r of
             Inl e \<Rightarrow> []
           | Inr st \<Rightarrow> emitted k stp r (kmer_exist st) 0)"

lemma process_read_result:
  assumes k: "0 < k" and p: "process_read k stp max_len r g = Inr (g', al)"
  shows "g' = g\<lparr>iterative_edges :=
                   fold increment (read_keys (crusial_kmers g) k stp r) (iterative_edges g),
                 increment_log := increment_log g @ read_keys (crusial_kmers g) k stp r\<rparr>
         \<and> al = (read_keys (crusial_kmers g) k stp r \<noteq> [])"
proof (cases "length r < k + stp + 1")
  case True
  with p have "g' = g" and "\<not> al" by (simp_all add: process_read_def split: if_splits)
  with True show ?thesis by (simp add: read_keys_def)
next
  case False
  then have L: "k + stp + 1 \<le> length r" by simp
  from p have m: "int (length r) \<le> max_len" by (simp add: process_read_def split: if_splits)
  from p False m obtain st where st: "phase1 (crusial_kmers g) k r = Inr st"
    by (cases "phase1 (crusial_kmers g) k r") (simp_all add: process_read_def)
  from k L have "k \<le> length r" by simp
  from phase1_scan [OF k this, of "crusial_kmers g"] st
  have len: "length (kmer_exist st) = length r" by simp
  from process_read_spec [OF k L m st len] p False st show ?thesis
    by (simp add: read_keys_def)
qed

lemma process_reads_result:
  assumes k: "0 < k"
  shows "process_reads k stp max_len rs g = Inr (g', out) \<Longrightarrow>
         crusial_kmers g' = crusial_kmers g \<and>
         output_read_file g' = output_read_file g \<and>
         increment_log g' = increment_log g @ concat (map (read_keys (crusial_kmers g) k stp) rs) \<and>
         iterative_edges g' =
           fold increment (concat (map (read_keys (crusial_kmers g) k stp) rs)) (iterative_edges g) \<and>
         out = filter (\<lambda>r. read_keys (crusial_kmers g) k stp r \<noteq> []) rs"
proof (induction rs arbitrary: g g' out)
  case Nil
  then show ?case by simp
next
  case (Cons r rs)
  from Cons.prems obtain g1 al out1 where
    p: "process_read k stp max_len r g = Inr (g1, al)" and
    ps: "process_reads k stp max_len rs g1 = Inr (g', out1)" and
    out: "out = (if al then [r] else []) @ out1"
    by (auto split: sum.splits)
  from process_read_result [OF k p] have
    g1: "g1 = g\<lparr>iterative_edges :=
                   fold increment (read_keys (crusial_kmers g) k stp r) (iterative_edges g),
                 increment_log := increment_log g @ read_keys (crusial_kmers g) k stp r\<rparr>" and
    al: "al = (read_keys (crusial_kmers g) k stp r \<noteq> [])"
    by simp_all
  from g1 have c: "crusial_kmers g1 = crusial_kmers g" by simp
  from Cons.IH [OF ps] g1 al out show ?case unfolding c by simp
qed

lemma read_loop_result:
  assumes k: "0 < k"
  shows "read_loop k stp max_len pkgs g = Inr g' \<Longrightarrow>
         crusial_kmers g' = crusial_kmers g \<and>
         output_read_file g' =
           output_read_file g @
           filter (\<lambda>r. read_keys (crusial_kmers g) k stp r \<noteq> [])
             (concat (takeWhile (\<lambda>pkg. pkg \<noteq> []) pkgs)) \<and>
         increment_log g' =
           increment_log g @
           concat (map (read_keys (crusial_kmers g) k stp) (concat (takeWhile (\<lambda>pkg. pkg \<noteq> []) pkgs))) \<and>
         iterative_edges g' =
           fold increment
             (concat (map (read_keys (crusial_kmers g) k stp) (concat (takeWhile (\<lambda>pkg. pkg \<noteq> []) pkgs))))
             (iterative_edges g)"
proof (induction pkgs arbitrary: g)
  case Nil
  then show ?case by simp
next
  case (Cons pkg rest)
  show ?case
  proof (cases "pkg = []")
    case True
    with Cons.prems show ?thesis by simp
  next
    case False
    with Cons.prems obtain g1 out where
      ps: "process_reads k stp max_len pkg g = Inr (g1, out)" and
      l: "read_loop k stp max_len rest (g1\<lparr>output_read_file := output_read_file g1 @ out\<rparr>) = Inr g'"
      by (auto split: sum.splits)
    let ?g2 = "g1\<lparr>output_read_file := output_read_file g1 @ out\<rparr>"
    from process_reads_result [OF k ps] have
      c: "crusial_kmers ?g2 = crusial_kmers g" and
      o: "output_read_file ?g2 =
            output_read_file g @ filter (\<lambda>r. read_keys (crusial_kmers g) k stp r \<noteq> []) pkg" and
      i: "increment_log ?g2 =
            increment_log g @ concat (map (read_keys (crusial_kmers g) k stp) pkg)" and
      e: "iterative_edges ?g2 =
            fold increment (concat (map (read_keys (crusial_kmers g) k stp) pkg)) (iterative_edges g)"
      by simp_all
    from Cons.IH [OF l] False show ?thesis unfolding c o i e by simp
  qed
qed

text \<open>
  C1, as amended: for every read \<open>R\<close> of length \<open>L \<ge> k + s + 1\<close> (within \<open>max_read_len\<close>,
  \<open>k > 0\<close>) with the labelling \<open>exist\<close> that phase 1 computes, the read pass performs exactly
  one increment for each scan position \<open>j \<le> L - k\<close> whose \<open>s + 2\<close> positions
  \<open>j - s - 1, \<dots>, j\<close> are all labelled, on the canonical key of the window
  \<open>R[j - s - 1 .. j + k)\<close>, in scan order; \<open>R\<close> is labelled aligned, and written to
  \<^verbatim>\<open>rr.pb\<close>, exactly when there is such a position. So there are at most
  \<open>L - (k + s + 1) + 1\<close> increments, and exactly one per \<open>(k + s + 1)\<close>-window of \<open>R\<close> when
  every position \<open>0, \<dots>, L - k\<close> is labelled. Being a substring of a contig does not label
  anything: labels come from the crucial k-mers of contig ends only. The same holds in
  every run of the read loop: \<^verbatim>\<open>rr.pb\<close> receives, in order, exactly the reads of the
  batches that have such a position, and the increments are those of the reads, in order.
\<close>

theorem read_increments:
  assumes "0 < k" and "k + stp + 1 \<le> length r" and "int (length r) \<le> max_len"
    and "phase1 (crusial_kmers g) k r = Inr st"
  shows "process_read k stp max_len r g =
           Inr (g\<lparr>iterative_edges :=
                     fold increment (emitted k stp r (kmer_exist st) 0) (iterative_edges g),
                   increment_log := increment_log g @ emitted k stp r (kmer_exist st) 0\<rparr>,
                emitted k stp r (kmer_exist st) 0 \<noteq> [])
         \<and> process_reads k stp max_len [r] g =
           Inr (g\<lparr>iterative_edges :=
                     fold increment (emitted k stp r (kmer_exist st) 0) (iterative_edges g),
                   increment_log := increment_log g @ emitted k stp r (kmer_exist st) 0\<rparr>,
                if emitted k stp r (kmer_exist st) 0 \<noteq> [] then [r] else [])
         \<and> length (emitted k stp r (kmer_exist st) 0) \<le> length r - (k + stp + 1) + 1
         \<and> (list_all (\<lambda>i. kmer_exist st ! i) [0..<length r - k + 1] \<longrightarrow>
              emitted k stp r (kmer_exist st) 0 =
                map (\<lambda>p. canonical_key (take (k + stp + 1) (drop p r)))
                  [0..<length r - (k + stp + 1) + 1])
         \<and> read_loop k stp max_len [[r]] g =
           Inr (g\<lparr>iterative_edges :=
                     fold increment (emitted k stp r (kmer_exist st) 0) (iterative_edges g),
                   increment_log := increment_log g @ emitted k stp r (kmer_exist st) 0,
                   output_read_file :=
                     output_read_file g @
                     (if emitted k stp r (kmer_exist st) 0 \<noteq> [] then [r] else [])\<rparr>)
         \<and> read_keys (crusial_kmers g) k stp r = emitted k stp r (kmer_exist st) 0
         \<and> (\<forall>packages g'.
              read_loop k stp max_len packages g = Inr g' \<longrightarrow>
              output_read_file g' =
                output_read_file g @
                filter (\<lambda>r'. read_keys (crusial_kmers g) k stp r' \<noteq> [])
                  (concat (takeWhile (\<lambda>pkg. pkg \<noteq> []) packages)) \<and>
              increment_log g' =
                increment_log g @
                concat (map (read_keys (crusial_kmers g) k stp)
                          (concat (takeWhile (\<lambda>pkg. pkg \<noteq> []) packages))) \<and>
              iterative_edges g' =
                fold increment
                  (concat (map (read_keys (crusial_kmers g) k stp)
                             (concat (takeWhile (\<lambda>pkg. pkg \<noteq> []) packages))))
                  (iterative_edges g))"
proof -
  from assms(1,2) have "k \<le> length r" by simp
  from phase1_scan [OF assms(1) this, of "crusial_kmers g"] assms(4)
  have len: "length (kmer_exist st) = length r" by simp
  note pr = process_read_spec [OF assms len]
  then have ps: "process_reads k stp max_len [r] g =
           Inr (g\<lparr>iterative_edges :=
                     fold increment (emitted k stp r (kmer_exist st) 0) (iterative_edges g),
                   increment_log := increment_log g @ emitted k stp r (kmer_exist st) 0\<rparr>,
                if emitted k stp r (kmer_exist st) 0 \<noteq> [] then [r] else [])"
    by simp
  then have rl: "read_loop k stp max_len [[r]] g =
           Inr (g\<lparr>iterative_edges :=
                     fold increment (emitted k stp r (kmer_exist st) 0) (iterative_edges g),
                   increment_log := increment_log g @ emitted k stp r (kmer_exist st) 0,
                   output_read_file :=
                     output_read_file g @
                     (if emitted k stp r (kmer_exist st) 0 \<noteq> [] then [r] else [])\<rparr>)"
    by simp
  from assms(2,4) have rk: "read_keys (crusial_kmers g) k stp r = emitted k stp r (kmer_exist st) 0"
    by (simp add: read_keys_def)
  note all = read_loop_result [OF assms(1), of stp max_len _ g]
  from pr ps rl rk length_emitted [of k stp r "kmer_exist st"]
    emitted_all [OF _ assms(2), of "kmer_exist st"] all
  show ?thesis by blast
qed

theorem read_increments_witness:
  "\<exists>st g'. phase1 [[0, 0, 1] \<mapsto> 13835058055282163713, [2, 1, 0] \<mapsto> 9223372036854775809] 3
          [0, 0, 1, 3, 2, 1] = Inr st
     \<and> kmer_exist st = [True, True, True, True, False, False]
     \<and> emitted 3 1 [0, 0, 1, 3, 2, 1] (kmer_exist st) 0 = [[0, 0, 1, 3, 2], [0, 1, 3, 2, 1]]
     \<and> process_reads 3 1 100 [[0, 0, 1, 3, 2, 1]]
          \<lparr>crusial_kmers = [[0, 0, 1] \<mapsto> 13835058055282163713, [2, 1, 0] \<mapsto> 9223372036854775809],
           iterative_edges = Map.empty, output_edge_file = [], output_read_file = [],
           increment_log = []\<rparr> =
        Inr (\<lparr>crusial_kmers = [[0, 0, 1] \<mapsto> 13835058055282163713, [2, 1, 0] \<mapsto> 9223372036854775809],
           iterative_edges = fold increment [[0, 0, 1, 3, 2], [0, 1, 3, 2, 1]] Map.empty,
           output_edge_file = [], output_read_file = [],
           increment_log = [[0, 0, 1, 3, 2], [0, 1, 3, 2, 1]]\<rparr>, [[0, 0, 1, 3, 2, 1]])
     \<and> read_loop 3 1 100 [[[0, 0, 1, 3, 2, 1]]]
          \<lparr>crusial_kmers = [[0, 0, 1] \<mapsto> 13835058055282163713, [2, 1, 0] \<mapsto> 9223372036854775809],
           iterative_edges = Map.empty, output_edge_file = [], output_read_file = [],
           increment_log = []\<rparr> =
        Inr \<lparr>crusial_kmers = [[0, 0, 1] \<mapsto> 13835058055282163713, [2, 1, 0] \<mapsto> 9223372036854775809],
           iterative_edges = fold increment [[0, 0, 1, 3, 2], [0, 1, 3, 2, 1]] Map.empty,
           output_edge_file = [], output_read_file = [[0, 0, 1, 3, 2, 1]],
           increment_log = [[0, 0, 1, 3, 2], [0, 1, 3, 2, 1]]\<rparr>
     \<and> read_loop 3 1 100 [[[1, 1, 2, 3, 0, 2], [0, 0, 1, 3, 2, 1]], [], [[0, 0, 1, 3, 2, 1]]]
          \<lparr>crusial_kmers = [[0, 0, 1] \<mapsto> 13835058055282163713, [2, 1, 0] \<mapsto> 9223372036854775809],
           iterative_edges = Map.empty, output_edge_file = [], output_read_file = [],
           increment_log = []\<rparr> = Inr g'
     \<and> output_read_file g' = [[0, 0, 1, 3, 2, 1]]
     \<and> increment_log g' = [[0, 0, 1, 3, 2], [0, 1, 3, 2, 1]]"
proof -
  let ?C3 = "[[0, 0, 1] \<mapsto> 13835058055282163713, [2, 1, 0] \<mapsto> 9223372036854775809]
      :: kmer \<rightharpoonup> 64 word"
  let ?r = "[0, 0, 1, 3, 2, 1] :: base list"
  let ?r' = "[1, 1, 2, 3, 0, 2] :: base list"
  let ?g = "\<lparr>crusial_kmers = ?C3, iterative_edges = Map.empty, output_edge_file = [],
      output_read_file = [], increment_log = []\<rparr>"
  let ?pk = "[[?r', ?r], [], [?r]]"
  have "\<not> isl (phase1 ?C3 3 ?r)" by code_simp
  then obtain st where st: "phase1 ?C3 3 ?r = Inr st" by (cases "phase1 ?C3 3 ?r") auto
  have "kmer_exist (projr (phase1 ?C3 3 ?r)) = [True, True, True, True, False, False]"
    by code_simp
  with st have ex: "kmer_exist st = [True, True, True, True, False, False]" by simp
  have em: "emitted 3 1 ?r [True, True, True, True, False, False] 0 =
      [[0, 0, 1, 3, 2], [0, 1, 3, 2, 1]]"
    by code_simp
  have 1: "(0 :: nat) < 3" and 2: "3 + 1 + 1 \<le> length ?r" and 3: "int (length ?r) \<le> 100"
    by simp_all
  from st have 4: "phase1 (crusial_kmers ?g) 3 ?r = Inr st" by simp
  note t = read_increments [OF 1 2 3 4]
  have "\<not> isl (read_loop 3 1 100 ?pk ?g)" by code_simp
  then obtain g' where g': "read_loop 3 1 100 ?pk ?g = Inr g'"
    by (cases "read_loop 3 1 100 ?pk ?g") auto
  have k1: "read_keys ?C3 3 1 ?r' = []" by code_simp
  have k2: "read_keys ?C3 3 1 ?r = [[0, 0, 1, 3, 2], [0, 1, 3, 2, 1]]" by code_simp
  have tw: "concat (takeWhile (\<lambda>pkg. pkg \<noteq> []) ?pk) = [?r', ?r]" by simp
  from t g' have
    "output_read_file g' =
       output_read_file ?g @ filter (\<lambda>r'. read_keys (crusial_kmers ?g) 3 1 r' \<noteq> [])
         (concat (takeWhile (\<lambda>pkg. pkg \<noteq> []) ?pk))"
    "increment_log g' =
       increment_log ?g @ concat (map (read_keys (crusial_kmers ?g) 3 1)
         (concat (takeWhile (\<lambda>pkg. pkg \<noteq> []) ?pk)))"
    by blast+
  moreover have "crusial_kmers ?g = ?C3" and "output_read_file ?g = []" and "increment_log ?g = []"
    by simp_all
  moreover from k1 k2 have "filter (\<lambda>r'. read_keys ?C3 3 1 r' \<noteq> []) [?r', ?r] = [?r]"
    and "concat (map (read_keys ?C3 3 1) [?r', ?r]) = [[0, 0, 1, 3, 2], [0, 1, 3, 2, 1]]"
    by simp_all
  ultimately have o: "output_read_file g' = [?r]"
    and l: "increment_log g' = [[0, 0, 1, 3, 2], [0, 1, 3, 2, 1]]"
    unfolding tw by simp_all
  from t st ex em g' o l show ?thesis by simp
qed

text \<open>
  C1 as stated fails: with \<open>k = 3\<close>, \<open>s = 1\<close> and the single contig \<^verbatim>\<open>ACCGTAGGA\<close>, the read
  \<^verbatim>\<open>CCGTAG\<close> is an exact substring of the contig and has length \<open>6 \<ge> k + s + 1\<close>, but no
  k-mer of the read is a crucial k-mer: nothing is incremented and the read is not
  written.
\<close>

theorem substring_read_counterexample:
  "take 6 (drop 1 [0, 1, 1, 2, 3, 0, 2, 2, 0 :: base]) = [1, 1, 2, 3, 0, 2]
   \<and> \<not> isl (main (conversion 3 1) (\<lambda>m. []) 3 1 100
            [[\<lparr>seq = [0, 1, 1, 2, 3, 0, 2, 2, 0], multiplicity = 7\<rparr>]] None
            [[[1, 1, 2, 3, 0, 2]]])
   \<and> increment_log (projr (main (conversion 3 1) (\<lambda>m. []) 3 1 100
            [[\<lparr>seq = [0, 1, 1, 2, 3, 0, 2, 2, 0], multiplicity = 7\<rparr>]] None
            [[[1, 1, 2, 3, 0, 2]]])) = []
   \<and> output_read_file (projr (main (conversion 3 1) (\<lambda>m. []) 3 1 100
            [[\<lparr>seq = [0, 1, 1, 2, 3, 0, 2, 2, 0], multiplicity = 7\<rparr>]] None
            [[[1, 1, 2, 3, 0, 2]]])) = []"
  by code_simp

subsection \<open>Canonical keys\<close>

lemma kmer_less_total:
  "length a = length b \<Longrightarrow> \<not> kmer_less a b \<Longrightarrow> \<not> kmer_less b a \<Longrightarrow> a = b"
  by (induction a b rule: kmer_less.induct) (auto simp: not_less)

lemma canonical_key_fixed:
  assumes "canonical key"
  shows "canonical_key key = key"
proof (cases "kmer_less key (ReverseComplement key)")
  case True
  then show ?thesis by (simp add: canonical_key_def)
next
  case False
  with assms have "key = ReverseComplement key"
    by (intro kmer_less_total) (simp_all add: canonical_def)
  with False show ?thesis by (simp add: canonical_key_def)
qed

text \<open>Every logged key is canonical and has the size of an edge.\<close>

definition keys_ok :: "nat \<Rightarrow> nat \<Rightarrow> kmer list \<Rightarrow> bool" where
  "keys_ok k stp ks = list_all (\<lambda>key. canonical key \<and> length key = k + stp + 1) ks"

lemma keys_ok_emitted: "keys_ok k stp (emitted k stp r ex 0)"
proof -
  have "canonical (canonical_key (window k stp r j)) \<and>
        length (canonical_key (window k stp r j)) = k + stp + 1"
    if "j \<in> set (filter (supported stp ex) [0..<length r - k + 1])" for j
  proof -
    from that have "stp + 1 \<le> j" and "j + k \<le> length r"
      by (auto dest: supported_bound simp del: upt_Suc)
    then show ?thesis by (simp add: canonical_canonical_key length_window)
  qed
  then show ?thesis
    unfolding keys_ok_def emitted_def list_all_iff by auto
qed

lemma process_read_keys_ok:
  assumes "0 < k" and "process_read k stp max_len r g = Inr (g', a)"
    and "keys_ok k stp (increment_log g)"
  shows "keys_ok k stp (increment_log g')"
proof (cases "int (length r) > max_len \<or> length r < k + stp + 1")
  case True
  with assms show ?thesis by (auto simp: process_read_def split: if_splits)
next
  case False
  with assms(2) obtain st where st: "phase1 (crusial_kmers g) k r = Inr st"
    by (auto simp: process_read_def split: sum.splits)
  from False have L: "k + stp + 1 \<le> length r" and m: "int (length r) \<le> max_len" by simp_all
  then have "k \<le> length r" by simp
  from phase1_scan [OF assms(1) this, of "crusial_kmers g"] st
  have "length (kmer_exist st) = length r" by simp
  from process_read_spec [OF assms(1) L m st this] assms(2)
  have "increment_log g' = increment_log g @ emitted k stp r (kmer_exist st) 0" by auto
  with assms(3) keys_ok_emitted [of k stp r "kmer_exist st"] show ?thesis
    by (simp add: keys_ok_def)
qed

lemma process_reads_keys_ok:
  "0 < k \<Longrightarrow> process_reads k stp max_len rs g = Inr (g', out)
     \<Longrightarrow> keys_ok k stp (increment_log g) \<Longrightarrow> keys_ok k stp (increment_log g')"
  by (induction rs arbitrary: g out)
    (auto split: sum.splits prod.splits dest: process_read_keys_ok)

lemma read_loop_keys_ok:
  "0 < k \<Longrightarrow> read_loop k stp max_len pkgs g = Inr g'
     \<Longrightarrow> keys_ok k stp (increment_log g) \<Longrightarrow> keys_ok k stp (increment_log g')"
proof (induction pkgs arbitrary: g)
  case Nil
  then show ?case by simp
next
  case (Cons pkg rest)
  show ?case
  proof (cases "pkg = []")
    case True
    with Cons.prems show ?thesis by simp
  next
    case False
    with Cons.prems obtain g1 out where
      p: "process_reads k stp max_len pkg g = Inr (g1, out)" and
      l: "read_loop k stp max_len rest (g1\<lparr>output_read_file := output_read_file g1 @ out\<rparr>) = Inr g'"
      by (auto split: sum.splits prod.splits)
    from process_reads_keys_ok [OF Cons.prems(1) p Cons.prems(3)]
    have "keys_ok k stp (increment_log (g1\<lparr>output_read_file := output_read_file g1 @ out\<rparr>))"
      by simp
    from Cons.IH [OF Cons.prems(1) l this] show ?thesis .
  qed
qed

text \<open>
  C5: every key of the iterative-edge map is canonical, that is, not greater than its own
  reverse complement: it is the smaller of a \<open>(k + s + 1)\<close>-mer and its reverse complement.
  (At every emission \<open>rev_kmer\<close> is the reverse complement of \<open>kmer\<close>, in each of the three
  regimes: lemma \<open>resync_window\<close>.)
\<close>

theorem keys_canonical:
  assumes "0 < k" and "main conv entries k stp max_len primary addi reads = Inr g"
    and "iterative_edges g key = Some v"
  shows "\<not> kmer_less (ReverseComplement key) key \<and> length key = k + stp + 1
         \<and> canonical_key key = key"
proof -
  from assms(2) obtain g1 g2 g3 where
    g1: "ReadContigsAndBuildHash conv k stp False primary InitGlobalData = Inr g1" and
    g2: "(case addi of None \<Rightarrow> Inr g1
          | Some packages \<Rightarrow> ReadContigsAndBuildHash conv k stp True packages g1) = Inr g2" and
    g3: "read_loop k stp max_len reads g2 = Inr g3" and
    g: "increment_log g = increment_log g3"
    by (auto simp: main_def ReadReadsAndProcess_def split: sum.splits)
  from ReadContigsAndBuildHash_counters [OF g1] have "increment_log g1 = []"
    by (simp add: InitGlobalData_def)
  with g2 have "increment_log g2 = []"
    by (cases addi) (auto dest: ReadContigsAndBuildHash_counters)
  then have "keys_ok k stp (increment_log g2)" by (simp add: keys_ok_def)
  from read_loop_keys_ok [OF assms(1) g3 this] g
  have ok: "keys_ok k stp (increment_log g)" by simp
  from main_log_ok [OF assms(2)] have "dom (iterative_edges g) = set (increment_log g)"
    by (simp add: log_ok_def dom_fold_increment)
  with assms(3) have "key \<in> set (increment_log g)" by auto
  with ok have "canonical key" and "length key = k + stp + 1"
    by (auto simp: keys_ok_def list_all_iff)
  with canonical_key_fixed [of key] show ?thesis by (simp add: canonical_def)
qed

theorem keys_canonical_witness:
  "\<exists>g v. main (conversion 3 1) (\<lambda>m. []) 3 1 100
            [[\<lparr>seq = [3, 3, 1, 0, 0, 2], multiplicity = 7\<rparr>]] None
            [[[3, 3, 1, 0, 0, 2]]] = Inr g
     \<and> increment_log g = [[3, 3, 1, 0, 0], [1, 3, 3, 2, 0]]
     \<and> ReverseComplement [3, 1, 0, 0, 2] = [1, 3, 3, 2, 0]
     \<and> iterative_edges g [1, 3, 3, 2, 0] = Some v
     \<and> \<not> kmer_less (ReverseComplement [1, 3, 3, 2, 0]) [1, 3, 3, 2, 0]
     \<and> canonical_key [1, 3, 3, 2, 0] = [1, 3, 3, 2, 0]"
proof -
  let ?run = "main (conversion 3 1) (\<lambda>m. []) 3 1 100
            [[\<lparr>seq = [3, 3, 1, 0, 0, 2], multiplicity = 7\<rparr>]] None
            [[[3, 3, 1, 0, 0, 2]]]"
  have "\<not> isl ?run" by code_simp
  then obtain g where g: "?run = Inr g" by (cases ?run) auto
  have "iterative_edges (projr ?run) [1, 3, 3, 2, 0] = Some 1" by code_simp
  with g have v: "iterative_edges g [1, 3, 3, 2, 0] = Some 1" by simp
  have "increment_log (projr ?run) = [[3, 3, 1, 0, 0], [1, 3, 3, 2, 0]]" by code_simp
  with g have l: "increment_log g = [[3, 3, 1, 0, 0], [1, 3, 3, 2, 0]]" by simp
  have rc: "ReverseComplement [3, 1, 0, 0, 2] = [1, 3, 3, 2, 0]"
    by (simp add: ReverseComplement_def)
  have k: "(0 :: nat) < 3" by simp
  from keys_canonical [OF k g v] g v l rc show ?thesis by blast
qed

subsection \<open>The sliding update of the packed edge\<close>

lemma bit_pack_word:
  fixes w :: "32 word" and c :: base
  assumes "b < 32"
  shows "bit (push_bit 2 w OR ucast c) b \<longleftrightarrow> (if b < 2 then bit c b else bit w (b - 2))"
  using assms by (auto simp: bit_simps dest: bit_imp_le_length)

lemma bit_last_shift:
  fixes w :: "32 word"
  assumes "b < 32"
  shows "bit (push_bit s w) b \<longleftrightarrow> s \<le> b \<and> bit w (b - s)"
  using assms by (auto simp: bit_simps)

lemma bit_or_mult:
  fixes w :: "32 word" and mult :: multi_t
  assumes "b < 32"
  shows "bit (w OR ucast mult) b \<longleftrightarrow> bit w b \<or> (b < 16 \<and> bit mult b)"
  using assms by (auto simp: bit_simps dest: bit_imp_le_length)

lemma bit_xor_mult:
  fixes w :: "32 word" and mult :: multi_t
  assumes "b < 32"
  shows "bit (w XOR ucast mult) b \<longleftrightarrow> (bit w b \<noteq> (b < 16 \<and> bit mult b))"
  using assms by (auto simp: bit_simps dest: bit_imp_le_length)

lemma bit_three: "bit (3 :: 32 word) i \<longleftrightarrow> i < 2"
  unfolding three_eq_mask by (auto simp: bit_simps)

lemma bit_clear_slot:
  fixes w :: "32 word"
  assumes "b < 32" and "t < 16"
  shows "bit (w AND NOT (push_bit ((15 - t) * 2) 3)) b \<longleftrightarrow> bit w b \<and> b div 2 \<noteq> 15 - t"
proof -
  have "bit (push_bit ((15 - t) * 2) (3 :: 32 word)) b \<longleftrightarrow> b div 2 = 15 - t"
  proof -
    have "bit (push_bit ((15 - t) * 2) (3 :: 32 word)) b \<longleftrightarrow>
        (15 - t) * 2 \<le> b \<and> b - (15 - t) * 2 < 2"
      unfolding three_eq_mask using assms by (auto simp: bit_simps)
    also have "\<dots> \<longleftrightarrow> b div 2 = 15 - t" by presburger
    finally show ?thesis .
  qed
  with assms show ?thesis by (simp add: bit_simps)
qed

lemma bit_shift_in:
  fixes w v :: "32 word"
  assumes "b < 32"
  shows "bit (drop_bit 2 w OR push_bit 30 v) b \<longleftrightarrow> (if b < 30 then bit w (b + 2) else bit v (b - 30))"
  using assms by (auto simp: bit_simps dest: bit_imp_le_length)

text \<open>
  The place of a base in the packed edge: bit \<open>b\<close> of word \<open>q\<close> belongs to the base slot
  \<open>16 q + (15 - b div 2)\<close>, counted from the most significant end of word 0.
\<close>

definition slot :: "nat \<Rightarrow> nat \<Rightarrow> nat" where
  "slot q b = 16 * q + (15 - b div 2)"

text \<open>The state of the packing loop after \<open>m\<close> rounds.\<close>

definition pack_inv ::
  "(nat \<Rightarrow> base) \<Rightarrow> nat \<Rightarrow> nat \<Rightarrow> nat \<Rightarrow> 32 word \<times> nat \<times> 32 word list \<Rightarrow> bool" where
  "pack_inv get next_k W m st =
     (case st of (w, end_word, pe) \<Rightarrow>
        end_word = m div 16 \<and> length pe = W \<and>
        (\<forall>q < W. \<forall>b < 32. bit (pe ! q) b \<longleftrightarrow>
           (q < m div 16 \<and> bit (get (next_k - slot q b)) (b mod 2))) \<and>
        (\<forall>b < 32. bit w b \<longleftrightarrow>
           (b div 2 < m mod 16 \<and>
            bit (get (next_k - (16 * (m div 16) + (m mod 16 - 1 - b div 2)))) (b mod 2))))"

lemma pack_inv_init: "pack_inv get next_k W 0 (0, 0, replicate W 0)"
  by (simp add: pack_inv_def)


lemma pack_invD:
  assumes "pack_inv get next_k W m (w, ew, pe)"
  shows "ew = m div 16" and "length pe = W"
    and "q < W \<Longrightarrow> b < 32 \<Longrightarrow>
          bit (pe ! q) b \<longleftrightarrow> (q < m div 16 \<and> bit (get (next_k - slot q b)) (b mod 2))"
    and "b < 32 \<Longrightarrow> bit w b \<longleftrightarrow>
          (b div 2 < m mod 16 \<and>
           bit (get (next_k - (16 * (m div 16) + (m mod 16 - 1 - b div 2)))) (b mod 2))"
  using assms unfolding pack_inv_def prod.case by blast+

lemma pack_invI:
  assumes "ew = m div 16" and "length pe = W"
    and "\<And>q b. q < W \<Longrightarrow> b < 32 \<Longrightarrow>
          bit (pe ! q) b \<longleftrightarrow> (q < m div 16 \<and> bit (get (next_k - slot q b)) (b mod 2))"
    and "\<And>b. b < 32 \<Longrightarrow> bit w b \<longleftrightarrow>
          (b div 2 < m mod 16 \<and>
           bit (get (next_k - (16 * (m div 16) + (m mod 16 - 1 - b div 2)))) (b mod 2))"
  shows "pack_inv get next_k W m (w, ew, pe)"
  using assms unfolding pack_inv_def prod.case by blast

lemma pack_word_bits:
  fixes w :: "32 word" and get :: "nat \<Rightarrow> base"
  assumes w: "\<And>b. b < 32 \<Longrightarrow> bit w b \<longleftrightarrow>
          (b div 2 < r \<and> bit (get (next_k - (16 * e + (r - 1 - b div 2)))) (b mod 2))"
    and m: "m = 16 * e + r" and b: "b < 32"
  shows "bit (push_bit 2 w OR ucast (get (next_k - m)) :: 32 word) b \<longleftrightarrow>
      (b div 2 < r + 1 \<and> bit (get (next_k - (16 * e + (r - b div 2)))) (b mod 2))"
proof -
  have p: "bit (push_bit 2 w OR ucast (get (next_k - m)) :: 32 word) b \<longleftrightarrow>
      (if b < 2 then bit (get (next_k - m)) b else bit w (b - 2))"
    by (rule bit_pack_word [OF b])
  show ?thesis
  proof (cases "b < 2")
    case True
    then have "b div 2 = 0" "b mod 2 = b" by simp_all
    with True m show ?thesis unfolding p by simp
  next
    case False
    then have 1: "(b - 2) div 2 = b div 2 - 1" and 2: "(b - 2) mod 2 = b mod 2" and 3: "1 \<le> b div 2"
      by presburger+
    from 3 have 4: "b div 2 - 1 < r \<longleftrightarrow> b div 2 < r + 1" by linarith
    from 3 have 5: "r - 1 - (b div 2 - 1) = r - b div 2" by linarith
    from b have "b - 2 < 32" by simp
    from w [OF this] have "bit w (b - 2) \<longleftrightarrow>
        (b div 2 < r + 1 \<and> bit (get (next_k - (16 * e + (r - b div 2)))) (b mod 2))"
      unfolding 1 2 4 5 .
    with False show ?thesis unfolding p by simp
  qed
qed

lemma pack_inv_word:
  assumes inv: "pack_inv get next_k W m (w, ew, pe)" and b: "b < 32"
  shows "bit (push_bit 2 w OR ucast (get (next_k - m)) :: 32 word) b \<longleftrightarrow>
      (b div 2 < m mod 16 + 1 \<and> bit (get (next_k - (16 * (m div 16) + (m mod 16 - b div 2)))) (b mod 2))"
proof (rule pack_word_bits)
  show "m = 16 * (m div 16) + m mod 16" by simp
  show "b < 32" by (rule b)
  fix b' :: nat assume "b' < 32"
  then show "bit w b' \<longleftrightarrow>
          (b' div 2 < m mod 16 \<and>
           bit (get (next_k - (16 * (m div 16) + (m mod 16 - 1 - b' div 2)))) (b' mod 2))"
    by (rule pack_invD(4) [OF inv])
qed


lemma Suc_mod16_flush:
  assumes "Suc m mod 16 = 0"
  shows "m mod 16 = 15" and "Suc m div 16 = m div 16 + 1"
  using assms by (simp_all add: mod_Suc div_Suc split: if_splits)

lemma Suc_mod16_keep:
  assumes "Suc m mod 16 \<noteq> 0"
  shows "Suc m mod 16 = m mod 16 + 1" and "Suc m div 16 = m div 16"
  using assms by (simp_all add: mod_Suc div_Suc split: if_splits)

lemma pack_inv_step_flush:
  assumes inv: "pack_inv get next_k W m (w, ew, pe)" and m: "m div 16 < W"
    and f: "Suc m mod 16 = 0"
  shows "pack_inv get next_k W (Suc m)
           (0, ew + 1, pe[ew := push_bit 2 w OR ucast (get (next_k - m))])"
proof (rule pack_invI)
  note d = pack_invD [OF inv]
  note r = Suc_mod16_flush(1) [OF f] and e = Suc_mod16_flush(2) [OF f] and r' = f
  show "ew + 1 = Suc m div 16" by (simp add: e d(1))
  show "length (pe[ew := push_bit 2 w OR ucast (get (next_k - m))]) = W" by (simp add: d(2))
  show "bit (pe[ew := push_bit 2 w OR ucast (get (next_k - m))] ! q) b \<longleftrightarrow>
        (q < Suc m div 16 \<and> bit (get (next_k - slot q b)) (b mod 2))"
    if q: "q < W" and b: "b < 32" for q b
  proof (cases "q = ew")
    case True
    from b have "15 - b div 2 = m mod 16 - b div 2" "b div 2 < m mod 16 + 1" by (simp_all add: r)
    with True q d(1,2) pack_inv_word [OF inv b] show ?thesis
      by (simp add: e slot_def)
  next
    case False
    with q d(1,2) d(3) [OF q b] show ?thesis by (auto simp: e)
  qed
  show "bit (0 :: 32 word) b \<longleftrightarrow>
          (b div 2 < Suc m mod 16 \<and>
           bit (get (next_k - (16 * (Suc m div 16) + (Suc m mod 16 - 1 - b div 2)))) (b mod 2))"
    for b
    by (simp add: r')
qed


lemma pack_inv_step_keep:
  assumes inv: "pack_inv get next_k W m (w, ew, pe)" and f: "Suc m mod 16 \<noteq> 0"
  shows "pack_inv get next_k W (Suc m) (push_bit 2 w OR ucast (get (next_k - m)), ew, pe)"
proof (rule pack_invI)
  note d = pack_invD [OF inv]
  note r' = Suc_mod16_keep(1) [OF f] and e = Suc_mod16_keep(2) [OF f]
  show "ew = Suc m div 16" by (simp add: e d(1))
  show "length pe = W" by (rule d(2))
  show "bit (pe ! q) b \<longleftrightarrow> (q < Suc m div 16 \<and> bit (get (next_k - slot q b)) (b mod 2))"
    if q: "q < W" and b: "b < 32" for q b
    using d(3) [OF q b] by (simp only: e)
  show "bit (push_bit 2 w OR ucast (get (next_k - m)) :: 32 word) b \<longleftrightarrow>
          (b div 2 < Suc m mod 16 \<and>
           bit (get (next_k - (16 * (Suc m div 16) + (Suc m mod 16 - 1 - b div 2)))) (b mod 2))"
    if b: "b < 32" for b
    using pack_inv_word [OF inv b] by (simp only: e r' add_diff_cancel_right')
qed

lemma pack_inv_step:
  assumes inv: "pack_inv get next_k W m st" and m: "m div 16 < W"
  shows "pack_inv get next_k W (Suc m) (pack_step get next_k m st)"
proof -
  obtain w ew pe where st: "st = (w, ew, pe)" by (cases st)
  show ?thesis
  proof (cases "Suc m mod 16 = 0")
    case True
    from pack_inv_step_flush [OF inv [unfolded st] m True] True show ?thesis
      by (simp add: st pack_step_def Let_def)
  next
    case False
    from pack_inv_step_keep [OF inv [unfolded st] False] False show ?thesis
      by (simp add: st pack_step_def Let_def)
  qed
qed

lemma pack_inv_fold:
  assumes "m \<le> next_k + 1" and "next_k + 1 + 8 \<le> 16 * W"
  shows "pack_inv get next_k W m (fold (pack_step get next_k) [0..<m] (0, 0, replicate W 0))"
  using assms(1)
proof (induction m)
  case 0
  show ?case by (simp add: pack_inv_init)
next
  case (Suc m)
  then have inv: "pack_inv get next_k W m (fold (pack_step get next_k) [0..<m] (0, 0, replicate W 0))"
    by simp
  from Suc.prems assms(2) have "m div 16 < W" by linarith
  from pack_inv_step [OF inv this] show ?case by simp
qed

lemma sub_even:
  fixes b c :: nat
  assumes "c * 2 \<le> b"
  shows "(b - c * 2) div 2 = b div 2 - c" and "(b - c * 2) mod 2 = b mod 2" and "c \<le> b div 2"
proof -
  from assms obtain d where b: "b = d + c * 2" by (metis le_Suc_ex add.commute)
  show "(b - c * 2) div 2 = b div 2 - c" by (simp add: b)
  show "(b - c * 2) mod 2 = b mod 2" by (simp add: b)
  show "c \<le> b div 2" by (simp add: b)
qed

lemma last_word_bits:
  fixes w :: "32 word" and get :: "nat \<Rightarrow> base"
  assumes w: "\<And>b. b < 32 \<Longrightarrow> bit w b \<longleftrightarrow>
          (b div 2 < r \<and> bit (get (next_k - (16 * e + (r - 1 - b div 2)))) (b mod 2))"
    and n: "next_k + 1 = 16 * e + r" and r: "r < 16" and b: "b < 32"
  shows "bit (push_bit ((if r = 0 then 0 else 16 - r) * 2) w) b \<longleftrightarrow>
           (slot e b \<le> next_k \<and> bit (get (next_k - slot e b)) (b mod 2))"
proof (cases "r = 0")
  case True
  with n b have "\<not> slot e b \<le> next_k" by (simp add: slot_def)
  with True b w [OF b] show ?thesis by (simp add: bit_last_shift)
next
  case False
  let ?ls = "(16 - r) * 2"
  show ?thesis
  proof (cases "?ls \<le> b")
    case le: True
    note 1 = sub_even(1) [OF le] and 2 = sub_even(2) [OF le] and 3 = sub_even(3) [OF le]
    from b have 4: "b div 2 \<le> 15" by simp
    from 3 4 r False have 5: "b div 2 - (16 - r) < r" by linarith
    from 3 4 r False have 6: "r - 1 - (b div 2 - (16 - r)) = 15 - b div 2" by linarith
    from 3 4 r False n have 7: "slot e b \<le> next_k" by (simp add: slot_def)
    from b have "b - ?ls < 32" by simp
    from w [OF this] have "bit w (b - ?ls) \<longleftrightarrow> bit (get (next_k - slot e b)) (b mod 2)"
      unfolding 1 2 6 slot_def using 5 by simp
    with False le 7 b show ?thesis by (simp add: bit_last_shift)
  next
    case lt: False
    then have "b div 2 < 16 - r" by linarith
    with n r have "\<not> slot e b \<le> next_k" by (simp add: slot_def)
    with False lt b show ?thesis by (simp add: bit_last_shift)
  qed
qed

text \<open>
  The bits of a packed edge: the base slots \<open>0, \<dots>, next_k\<close> hold the bases
  \<open>get next_k, \<dots>, get 0\<close>, the low 16 bits of the last word hold the multiplicity, and
  every other bit is clear.
\<close>

definition base_bit :: "(nat \<Rightarrow> base) \<Rightarrow> nat \<Rightarrow> nat \<Rightarrow> nat \<Rightarrow> bool" where
  "base_bit get next_k q b = (slot q b \<le> next_k \<and> bit (get (next_k - slot q b)) (b mod 2))"

definition edge_bit :: "(nat \<Rightarrow> base) \<Rightarrow> nat \<Rightarrow> nat \<Rightarrow> multi_t \<Rightarrow> nat \<Rightarrow> nat \<Rightarrow> bool" where
  "edge_bit get next_k W mult q b =
     (base_bit get next_k q b \<or> (q = W - 1 \<and> b < 16 \<and> bit mult b))"

lemma pack_bases_bits:
  assumes W: "next_k + 1 + 8 \<le> 16 * W"
  shows "length (pack_bases get next_k W) = W"
    and "q < W \<Longrightarrow> b < 32 \<Longrightarrow> bit (pack_bases get next_k W ! q) b \<longleftrightarrow> base_bit get next_k q b"
proof -
  obtain w ew pe where
    f: "fold (pack_step get next_k) [0..<next_k + 1] (0, 0, replicate W 0) = (w, ew, pe)"
    by (cases "fold (pack_step get next_k) [0..<next_k + 1] (0, 0, replicate W 0)")
  from pack_inv_fold [OF order_refl W, of get] f
  have inv: "pack_inv get next_k W (next_k + 1) (w, ew, pe)" by simp
  note d = pack_invD [OF inv]
  let ?e = "(next_k + 1) div 16" and ?r = "(next_k + 1) mod 16"
  have pb: "pack_bases get next_k W = pe[ew := push_bit (last_shift next_k) w]"
    unfolding pack_bases_def f by simp
  from W have eW: "?e < W" by linarith
  have n: "next_k + 1 = 16 * ?e + ?r" by simp
  have r: "?r < 16" by simp
  show "length (pack_bases get next_k W) = W" by (simp add: pb d(2))
  assume q: "q < W" and b: "b < 32"
  show "bit (pack_bases get next_k W ! q) b \<longleftrightarrow> base_bit get next_k q b"
  proof (cases "q = ?e")
    case True
    have ls: "last_shift next_k = (if ?r = 0 then 0 else 16 - ?r) * 2"
      by (simp add: last_shift_def Let_def)
    have "bit (push_bit (last_shift next_k) w) b \<longleftrightarrow>
           (slot ?e b \<le> next_k \<and> bit (get (next_k - slot ?e b)) (b mod 2))"
      unfolding ls using d(4) n r b by (rule last_word_bits [where e = "?e" and r = "?r"])
    with True eW d(1,2) show ?thesis
      by (simp add: pb base_bit_def)
  next
    case False
    have "q < ?e \<longleftrightarrow> slot q b \<le> next_k"
    proof
      assume "q < ?e"
      then have "16 * q + 16 \<le> 16 * ?e" by simp
      with n show "slot q b \<le> next_k" by (simp add: slot_def)
    next
      assume s: "slot q b \<le> next_k"
      from False consider "q < ?e" | "?e < q" by linarith
      then show "q < ?e"
      proof cases
        case 1 then show ?thesis .
      next
        case 2
        then have "16 * ?e + 16 \<le> 16 * q" by simp
        with n r s show ?thesis by (simp add: slot_def)
      qed
    qed
    with False q b d(1,2) d(3) [OF q b] show ?thesis
      by (simp add: pb base_bit_def)
  qed
qed

lemma low_bits_free:
  assumes "next_k + 1 + 8 \<le> 16 * W" and "b < 16"
  shows "\<not> base_bit get next_k (W - 1) b"
proof -
  from assms(2) have "8 \<le> 15 - b div 2" by simp
  with assms(1) have "\<not> slot (W - 1) b \<le> next_k"
    by (cases W) (simp_all add: slot_def)
  then show ?thesis by (simp add: base_bit_def)
qed

lemma first_edge_bits:
  assumes W: "next_k + 1 + 8 \<le> 16 * W"
  shows "length (first_edge cs next_k W mult) = W"
    and "q < W \<Longrightarrow> b < 32 \<Longrightarrow>
          bit (first_edge cs next_k W mult ! q) b \<longleftrightarrow> edge_bit (\<lambda>p. cs ! p) next_k W mult q b"
proof -
  note pb = pack_bases_bits [OF W, where get = "\<lambda>p. cs ! p"]
  show "length (first_edge cs next_k W mult) = W"
    by (simp add: first_edge_def Let_def pb(1))
  assume q: "q < W" and b: "b < 32"
  show "bit (first_edge cs next_k W mult ! q) b \<longleftrightarrow> edge_bit (\<lambda>p. cs ! p) next_k W mult q b"
  proof (cases "q = W - 1")
    case True
    with q b pb(1) pb(2) [OF q b] show ?thesis
      by (simp add: first_edge_def Let_def edge_bit_def bit_or_mult)
  next
    case False
    with q b pb(1) pb(2) [OF q b] show ?thesis
      by (simp add: first_edge_def Let_def edge_bit_def)
  qed
qed

lemma shift_words_from:
  assumes "length pe = W" and "a \<le> W" and "1 \<le> a"
  shows "length (fold (\<lambda>k pe. pe[k := drop_bit 2 (pe ! k) OR push_bit 30 (pe ! (k - 1))])
                  (rev [a..<W]) pe) = W
         \<and> (\<forall>q < W. fold (\<lambda>k pe. pe[k := drop_bit 2 (pe ! k) OR push_bit 30 (pe ! (k - 1))])
                  (rev [a..<W]) pe ! q =
               (if a \<le> q then drop_bit 2 (pe ! q) OR push_bit 30 (pe ! (q - 1)) else pe ! q))"
  using assms(2,3)
proof (induction "W - a" arbitrary: a)
  case 0
  then have "a = W" by simp
  with assms(1) show ?case by simp
next
  case (Suc d)
  let ?f = "\<lambda>k pe. pe[k := drop_bit 2 (pe ! k) OR push_bit 30 (pe ! (k - 1))]"
  from Suc.hyps(2) have a: "a < W" by simp
  then have "rev [a..<W] = rev [Suc a..<W] @ [a]" by (simp add: upt_conv_Cons)
  then have fold: "fold ?f (rev [a..<W]) pe =
      ?f a (fold ?f (rev [Suc a..<W]) pe)"
    by simp
  from Suc.hyps(2) have "d = W - Suc a" by simp
  from Suc.hyps(1) [OF this] a Suc.prems
  have len: "length (fold ?f (rev [Suc a..<W]) pe) = W"
    and nth: "\<And>q. q < W \<Longrightarrow> fold ?f (rev [Suc a..<W]) pe ! q =
               (if Suc a \<le> q then drop_bit 2 (pe ! q) OR push_bit 30 (pe ! (q - 1)) else pe ! q)"
    by simp_all
  show ?case
  proof (intro conjI allI impI)
    show "length (fold ?f (rev [a..<W]) pe) = W" by (simp only: fold length_list_update len)
  next
    fix q assume q: "q < W"
    show "fold ?f (rev [a..<W]) pe ! q =
          (if a \<le> q then drop_bit 2 (pe ! q) OR push_bit 30 (pe ! (q - 1)) else pe ! q)"
    proof (cases "q = a")
      case True
      from a have "a - 1 < W" by simp
      from nth [OF this] have p: "fold ?f (rev [Suc a..<W]) pe ! (a - 1) = pe ! (a - 1)"
        by (simp split: if_splits)
      from nth [OF a] have c: "fold ?f (rev [Suc a..<W]) pe ! a = pe ! a" by simp
      from True a len show ?thesis
        by (simp only: fold nth_list_update_eq p c) simp
    next
      case False
      with nth [OF q] q len show ?thesis
        by (simp only: fold) (auto simp: nth_list_update)
    qed
  qed
qed

lemma shift_words_nth:
  assumes "length pe = W" and "0 < W"
  shows "length (shift_words W pe) = W"
    and "q < W \<Longrightarrow> shift_words W pe ! q =
          (if q = 0 then pe ! 0 else drop_bit 2 (pe ! q) OR push_bit 30 (pe ! (q - 1)))"
proof -
  from assms(2) have "1 \<le> W" by simp
  note s = shift_words_from [OF assms(1) this order_refl]
  from s show "length (shift_words W pe) = W" by (simp add: shift_words_def)
  assume "q < W"
  with s show "shift_words W pe ! q =
          (if q = 0 then pe ! 0 else drop_bit 2 (pe ! q) OR push_bit 30 (pe ! (q - 1)))"
    by (cases "q = 0") (simp_all add: shift_words_def)
qed

lemma bit_and_max_multi:
  fixes w :: "32 word"
  shows "w AND ucast kMaxMulti_t = 0 \<longleftrightarrow> (\<forall>b < 16. \<not> bit w b)"
proof -
  have m: "(ucast kMaxMulti_t :: 32 word) = mask 16"
    by (simp add: kMaxMulti_t_def mask_eq_exp_minus_1)
  show ?thesis
  proof
    assume z: "w AND ucast kMaxMulti_t = 0"
    show "\<forall>b < 16. \<not> bit w b"
    proof (intro allI impI)
      fix b :: nat assume b: "b < 16"
      from z have "\<not> bit (w AND mask 16) b" by (simp add: m)
      with b show "\<not> bit w b" by (simp add: bit_simps)
    qed
  next
    assume "\<forall>b < 16. \<not> bit w b"
    then show "w AND ucast kMaxMulti_t = 0"
      unfolding m by (intro bit_word_eqI) (auto simp: bit_simps)
  qed
qed

lemma slot_eq_iff:
  assumes "b < 32"
  shows "slot q b = n \<longleftrightarrow> q = n div 16 \<and> b div 2 = 15 - n mod 16"
proof -
  from assms have t: "15 - b div 2 < 16" and b2: "b div 2 \<le> 15" by simp_all
  show ?thesis
  proof
    assume s: "slot q b = n"
    then have n: "n = 16 * q + (15 - b div 2)" by (simp add: slot_def)
    from t have "n div 16 = q" and "n mod 16 = 15 - b div 2" by (simp_all add: n)
    with b2 show "q = n div 16 \<and> b div 2 = 15 - n mod 16" by simp
  next
    assume a: "q = n div 16 \<and> b div 2 = 15 - n mod 16"
    have "n mod 16 < 16" by simp
    with a have "15 - b div 2 = n mod 16" by linarith
    with a show "slot q b = n" by (simp add: slot_def)
  qed
qed

text \<open>Lines 360 and 361: the multiplicity and the vacated base slot are cleared.\<close>

lemma cleared_bits:
  fixes pe :: "32 word list"
  assumes W: "next_k + 1 + 8 \<le> 16 * W" and len: "length pe = W"
    and bits: "\<And>q b. q < W \<Longrightarrow> b < 32 \<Longrightarrow> bit (pe ! q) b \<longleftrightarrow> edge_bit get next_k W mult q b"
    and pea: "pea = pe[W - 1 := pe ! (W - 1) XOR ucast mult]"
    and peb: "peb = pea[next_k div 16 :=
                      pea ! (next_k div 16) AND NOT (push_bit ((15 - next_k mod 16) * 2) 3)]"
    and q: "q < W" and b: "b < 32"
  shows "length peb = W"
    and "bit (peb ! q) b \<longleftrightarrow> slot q b < next_k \<and> bit (get (next_k - slot q b)) (b mod 2)"
proof -
  from W have W0: "0 < W" and kW: "next_k div 16 < W" by linarith+
  have b1: "bit (pea ! q') b' \<longleftrightarrow> base_bit get next_k q' b'" if "q' < W" "b' < 32" for q' b'
  proof (cases "q' = W - 1")
    case True
    with that len have "pea ! q' = pe ! q' XOR ucast mult" by (simp add: pea)
    then have "bit (pea ! q') b' \<longleftrightarrow> (bit (pe ! q') b' \<noteq> (b' < 16 \<and> bit mult b'))"
      by (simp only: bit_xor_mult [OF that(2)])
    also have "\<dots> \<longleftrightarrow> base_bit get next_k q' b'"
      using bits [OF that] low_bits_free [OF W, of b' get] True
      unfolding edge_bit_def by blast
    finally show ?thesis .
  next
    case False
    with that len bits [OF that] show ?thesis by (simp add: pea edge_bit_def)
  qed
  show "length peb = W" by (simp add: peb pea len)
  have t: "next_k mod 16 < 16" by simp
  show "bit (peb ! q) b \<longleftrightarrow> slot q b < next_k \<and> bit (get (next_k - slot q b)) (b mod 2)"
  proof (cases "q = next_k div 16")
    case True
    have "bit (peb ! q) b \<longleftrightarrow> bit (pea ! q) b \<and> b div 2 \<noteq> 15 - next_k mod 16"
      using True q len by (simp add: peb pea bit_clear_slot [OF b t])
    also have "\<dots> \<longleftrightarrow> base_bit get next_k q b \<and> slot q b \<noteq> next_k"
      unfolding b1 [OF q b] slot_eq_iff [OF b] using True by simp
    finally show ?thesis by (auto simp: base_bit_def)
  next
    case False
    then have "slot q b \<noteq> next_k" by (simp add: slot_eq_iff [OF b])
    moreover from False q len have "bit (peb ! q) b \<longleftrightarrow> bit (pea ! q) b" by (simp add: peb)
    ultimately show ?thesis unfolding b1 [OF q b] base_bit_def by auto
  qed
qed

text \<open>The bases of the next window: the old bases moved down by one, the new base last.\<close>

definition slide_get :: "(nat \<Rightarrow> base) \<Rightarrow> nat \<Rightarrow> base \<Rightarrow> nat \<Rightarrow> base" where
  "slide_get get next_k c p = (if p = next_k then c else get (p + 1))"

lemma moved_slot:
  assumes "s + 1 = slot q b"
  shows "(s < next_k \<and> bit (get (next_k - s)) l) \<longleftrightarrow>
         (slot q b \<le> next_k \<and> bit (slide_get get next_k c (next_k - slot q b)) l)"
proof (cases "s < next_k")
  case True
  with assms have "next_k - slot q b \<noteq> next_k" and "next_k - slot q b + 1 = next_k - s"
    by simp_all
  with True assms show ?thesis by (simp add: slide_get_def)
next
  case False
  with assms show ?thesis by simp
qed

lemma shifted_bits:
  assumes b: "b < 32"
  shows "(if b < 30 then slot q (b + 2) < next_k \<and> bit (get (next_k - slot q (b + 2))) ((b + 2) mod 2)
          else if q = 0 then bit c (b - 30)
          else slot (q - 1) (b - 30) < next_k \<and>
               bit (get (next_k - slot (q - 1) (b - 30))) ((b - 30) mod 2)) \<longleftrightarrow>
         base_bit (slide_get get next_k c) next_k q b"
proof (cases "b < 30")
  case True
  then have "b div 2 \<le> 14" by simp
  then have "slot q (b + 2) + 1 = slot q b" by (simp add: slot_def)
  from moved_slot [OF this, of next_k get "b mod 2" c] True show ?thesis
    by (simp add: base_bit_def)
next
  case False
  with b have b2: "b div 2 = 15" and bm: "b - 30 = b mod 2" and d0: "(b - 30) div 2 = 0"
    by presburger+
  show ?thesis
  proof (cases "q = 0")
    case True
    with False b2 bm show ?thesis by (simp add: base_bit_def slot_def slide_get_def)
  next
    case q: False
    with b2 d0 have "slot (q - 1) (b - 30) + 1 = slot q b" by (simp add: slot_def)
    from moved_slot [OF this, of next_k get "b mod 2" c] False q bm show ?thesis
      by (simp add: base_bit_def)
  qed
qed

lemma bit_shift_in_base:
  fixes w :: "32 word" and c :: base
  assumes "b < 32"
  shows "bit (drop_bit 2 w OR push_bit 30 (ucast c)) b \<longleftrightarrow>
           (if b < 30 then bit w (b + 2) else bit c (b - 30))"
  using assms by (auto simp: bit_simps dest: bit_imp_le_length)

text \<open>
  A packed edge represents a window: it has \<open>W\<close> words and the bits of the window \<open>get\<close>
  with the multiplicity.
\<close>

definition represents ::
  "32 word list \<Rightarrow> (nat \<Rightarrow> base) \<Rightarrow> nat \<Rightarrow> nat \<Rightarrow> multi_t \<Rightarrow> bool" where
  "represents pe get next_k W mult =
     (length pe = W \<and> (\<forall>q < W. \<forall>b < 32. bit (pe ! q) b \<longleftrightarrow> edge_bit get next_k W mult q b))"

lemma represents_unique:
  assumes "represents pe get next_k W mult" and "represents pe' get next_k W mult"
  shows "pe = pe'"
proof (rule nth_equalityI)
  from assms show "length pe = length pe'" by (simp add: represents_def)
next
  fix q assume "q < length pe"
  with assms have q: "q < W" by (simp add: represents_def)
  show "pe ! q = pe' ! q"
  proof (rule bit_word_eqI)
    fix b :: nat assume "b < LENGTH(32)"
    then have "b < 32" by simp
    with assms q show "bit (pe ! q) b \<longleftrightarrow> bit (pe' ! q) b" by (simp add: represents_def)
  qed
qed

lemma represents_cong:
  assumes "represents pe get next_k W mult" and "\<And>p. p \<le> next_k \<Longrightarrow> get p = get' p"
  shows "represents pe get' next_k W mult"
proof -
  have "edge_bit get next_k W mult q b = edge_bit get' next_k W mult q b" for q b
    using assms(2) [of "next_k - slot q b"] by (auto simp: edge_bit_def base_bit_def)
  with assms(1) show ?thesis by (simp add: represents_def)
qed

lemma first_edge_represents:
  assumes "next_k + 1 + 8 \<le> 16 * W"
  shows "represents (first_edge cs next_k W mult) (\<lambda>p. cs ! p) next_k W mult"
  using first_edge_bits [OF assms] by (simp add: represents_def)

text \<open>One round of the sliding loop takes the edge of a window to the edge of the next one.\<close>

lemma slide_edge_represents:
  assumes W: "next_k + 1 + 8 \<le> 16 * W" and rep: "represents pe get next_k W mult"
  shows "\<exists>pe'. slide_edge next_k W mult c pe = Inr pe' \<and>
           represents pe' (slide_get get next_k c) next_k W mult"
proof -
  from W have W0: "0 < W" by linarith
  from rep have len: "length pe = W"
    and bits: "\<And>q b. q < W \<Longrightarrow> b < 32 \<Longrightarrow> bit (pe ! q) b \<longleftrightarrow> edge_bit get next_k W mult q b"
    by (simp_all add: represents_def)
  define pe1 where "pe1 = pe[W - 1 := pe ! (W - 1) XOR ucast mult]"
  define pe2 where "pe2 = pe1[next_k div 16 :=
                      pe1 ! (next_k div 16) AND NOT (push_bit ((15 - next_k mod 16) * 2) 3)]"
  define pe3 where "pe3 = shift_words W pe2"
  define pe5 where "pe5 = (pe3[0 := drop_bit 2 (pe3 ! 0)])
                            [0 := (pe3[0 := drop_bit 2 (pe3 ! 0)]) ! 0 OR push_bit 30 (ucast c)]"
  have len2: "length pe2 = W" by (simp add: pe2_def pe1_def len)
  have c2: "bit (pe2 ! q) b \<longleftrightarrow> slot q b < next_k \<and> bit (get (next_k - slot q b)) (b mod 2)"
    if q: "q < W" and b: "b < 32" for q b
  proof (rule cleared_bits(2) [where pe = pe and pea = pe1 and mult = mult,
        OF W len _ pe1_def pe2_def q b])
    fix q' b' :: nat assume "q' < W" and "b' < 32"
    then show "bit (pe ! q') b' \<longleftrightarrow> edge_bit get next_k W mult q' b'" by (rule bits)
  qed
  note s = shift_words_nth [OF len2 W0]
  from s(1) have len3: "length pe3 = W" by (simp add: pe3_def)
  then have len5: "length pe5 = W" by (simp add: pe5_def)
  have b5: "bit (pe5 ! q) b \<longleftrightarrow> base_bit (slide_get get next_k c) next_k q b"
    if q: "q < W" and b: "b < 32" for q b
  proof -
    have "bit (pe5 ! q) b \<longleftrightarrow>
        (if b < 30 then bit (pe2 ! q) (b + 2)
         else if q = 0 then bit c (b - 30) else bit (pe2 ! (q - 1)) (b - 30))"
    proof (cases "q = 0")
      case True
      with W0 len3 have "pe5 ! q = drop_bit 2 (pe3 ! 0) OR push_bit 30 (ucast c)"
        by (simp add: pe5_def)
      also from s(2) [OF W0] have "pe3 ! 0 = pe2 ! 0" by (simp add: pe3_def)
      finally show ?thesis using True by (simp add: bit_shift_in_base [OF b])
    next
      case False
      with q len3 have "pe5 ! q = pe3 ! q" by (simp add: pe5_def)
      also from s(2) [OF q] False
      have "pe3 ! q = drop_bit 2 (pe2 ! q) OR push_bit 30 (pe2 ! (q - 1))"
        by (simp add: pe3_def)
      finally show ?thesis using False by (simp add: bit_shift_in [OF b])
    qed
    also have "\<dots> \<longleftrightarrow>
        (if b < 30 then slot q (b + 2) < next_k \<and> bit (get (next_k - slot q (b + 2))) ((b + 2) mod 2)
          else if q = 0 then bit c (b - 30)
          else slot (q - 1) (b - 30) < next_k \<and>
               bit (get (next_k - slot (q - 1) (b - 30))) ((b - 30) mod 2))"
    proof (cases "b < 30")
      case True
      then have "b + 2 < 32" by simp
      from c2 [OF q this] True show ?thesis by simp
    next
      case False
      show ?thesis
      proof (cases "q = 0")
        case True
        with False show ?thesis by simp
      next
        case q0: False
        with q have "q - 1 < W" by simp
        moreover from b have "b - 30 < 32" by simp
        ultimately show ?thesis using c2 [of "q - 1" "b - 30"] False q0 by simp
      qed
    qed
    also have "\<dots> \<longleftrightarrow> base_bit (slide_get get next_k c) next_k q b"
      by (rule shifted_bits [OF b])
    finally show ?thesis .
  qed
  have "\<not> bit (pe5 ! (W - 1)) b" if "b < 16" for b
  proof -
    from that have "b < 32" by simp
    with W0 b5 [of "W - 1" b] low_bits_free [OF W that] show ?thesis by simp
  qed
  then have ok: "pe5 ! (W - 1) AND ucast kMaxMulti_t = 0" by (simp add: bit_and_max_multi)
  have eq: "slide_edge next_k W mult c pe = Inr (pe5[W - 1 := pe5 ! (W - 1) OR ucast mult])"
    using ok unfolding slide_edge_def Let_def pe1_def [symmetric] pe2_def [symmetric]
      pe3_def [symmetric] pe5_def [symmetric]
    by simp
  have "represents (pe5[W - 1 := pe5 ! (W - 1) OR ucast mult]) (slide_get get next_k c) next_k W mult"
    unfolding represents_def
  proof (intro conjI allI impI)
    show "length (pe5[W - 1 := pe5 ! (W - 1) OR ucast mult]) = W" by (simp add: len5)
  next
    fix q b :: nat assume q: "q < W" and b: "b < 32"
    show "bit (pe5[W - 1 := pe5 ! (W - 1) OR ucast mult] ! q) b \<longleftrightarrow>
        edge_bit (slide_get get next_k c) next_k W mult q b"
    proof (cases "q = W - 1")
      case True
      with q len5 b5 [OF q b] show ?thesis
        by (simp add: edge_bit_def bit_or_mult [OF b])
    next
      case False
      with q len5 b5 [OF q b] show ?thesis by (simp add: edge_bit_def)
    qed
  qed
  with eq show ?thesis by blast
qed

lemma kWordsPerEdge_fits: "k + stp + 1 + 8 \<le> 16 * kWordsPerEdge k stp"
proof -
  let ?x = "(k + stp + 1) * 2 + 16 + 31"
  have "?x = 32 * (?x div 32) + ?x mod 32" by simp
  moreover have "?x mod 32 < 32" by simp
  ultimately have "?x < 32 * (?x div 32) + 32" by linarith
  then show ?thesis by (simp add: kWordsPerEdge_def)
qed

lemma slide_first_edge:
  assumes W: "next_k + 1 + 8 \<le> 16 * W" and p: "p + next_k + 1 < length cs"
  shows "slide_edge next_k W mult (cs ! (p + next_k + 1)) (first_edge (drop p cs) next_k W mult) =
           Inr (first_edge (drop (Suc p) cs) next_k W mult)"
proof -
  let ?c = "cs ! (p + next_k + 1)"
  have r0: "represents (first_edge (drop p cs) next_k W mult) (\<lambda>q. drop p cs ! q) next_k W mult"
    by (rule first_edge_represents [OF W])
  from slide_edge_represents [OF W r0, where c = ?c]
  obtain pe' where
    s: "slide_edge next_k W mult ?c (first_edge (drop p cs) next_k W mult) = Inr pe'" and
    r: "represents pe' (slide_get (\<lambda>q. drop p cs ! q) next_k ?c) next_k W mult"
    by blast
  have "slide_get (\<lambda>q. drop p cs ! q) next_k ?c q = drop (Suc p) cs ! q" if "q \<le> next_k" for q
    using that p by (simp add: slide_get_def)
  from represents_cong [OF r this]
  have "represents pe' (\<lambda>q. drop (Suc p) cs ! q) next_k W mult" by simp
  from represents_unique [OF this first_edge_represents [OF W]] s show ?thesis by simp
qed

lemma slide_all_first_edges:
  assumes W: "next_k + 1 + 8 \<le> 16 * W"
  shows "p + next_k + 1 \<le> length cs \<Longrightarrow>
     slide_all next_k W mult (first_edge (drop p cs) next_k W mult) (drop (p + next_k + 1) cs) =
       Inr (map (\<lambda>q. first_edge (drop q cs) next_k W mult) [Suc p..<length cs - next_k])"
proof (induction "length cs - (p + next_k + 1)" arbitrary: p)
  case 0
  then have "drop (p + next_k + 1) cs = []" and "[Suc p..<length cs - next_k] = []" by simp_all
  then show ?case by simp
next
  case (Suc d)
  then have p: "p + next_k + 1 < length cs" by simp
  then have dr: "drop (p + next_k + 1) cs = cs ! (p + next_k + 1) # drop (Suc p + next_k + 1) cs"
    by (simp add: Cons_nth_drop_Suc)
  from p have upt: "[Suc p..<length cs - next_k] = Suc p # [Suc (Suc p)..<length cs - next_k]"
    by (intro upt_conv_Cons) simp
  from Suc.hyps(2) have d: "d = length cs - (Suc p + next_k + 1)" by simp
  from p have "Suc p + next_k + 1 \<le> length cs" by simp
  note IH = Suc.hyps(1) [OF d this]
  have s: "slide_edge next_k W mult (cs ! Suc (p + next_k)) (first_edge (drop p cs) next_k W mult) =
           Inr (first_edge (drop (Suc p) cs) next_k W mult)"
    using slide_first_edge [OF W p, of mult] by simp
  have a: "slide_all next_k W mult (first_edge (drop (Suc p) cs) next_k W mult)
        (drop (Suc (Suc (p + next_k))) cs) =
       Inr (map (\<lambda>q. first_edge (drop q cs) next_k W mult) [Suc (Suc p)..<length cs - next_k])"
    using IH by simp
  show ?case
    unfolding dr upt by (simp add: s a)
qed

lemma contig_edges_first_edges:
  assumes "k + stp + 1 \<le> length cs"
  shows "contig_edges k stp cs mult =
           Inr (map (\<lambda>p. first_edge (drop p cs) (k + stp) (kWordsPerEdge k stp) mult)
                  [0..<length cs - (k + stp + 1) + 1])"
proof -
  let ?W = "kWordsPerEdge k stp"
  have W: "k + stp + 1 + 8 \<le> 16 * ?W" by (rule kWordsPerEdge_fits)
  from assms have "0 + (k + stp) + 1 \<le> length cs" by simp
  from slide_all_first_edges [OF W this, of mult]
  have "slide_all (k + stp) ?W mult (first_edge cs (k + stp) ?W mult) (drop (k + stp + 1) cs) =
       Inr (map (\<lambda>q. first_edge (drop q cs) (k + stp) ?W mult) [Suc 0..<length cs - (k + stp)])"
    by simp
  moreover from assms have "length cs - (k + stp + 1) + 1 = length cs - (k + stp)" by simp
  moreover from assms have "[0..<length cs - (k + stp)] = 0 # [Suc 0..<length cs - (k + stp)]"
    by (intro upt_conv_Cons) simp
  ultimately show ?thesis
    by (simp add: contig_edges_def Let_def)
qed

text \<open>
  C3: for a contig of length \<open>\<ge> k + s + 1\<close> the sliding loop writes, at every position, the
  very words that the from-scratch assembly of lines 341 to 355 produces for the window
  at that position: the edges of the contig are the first edges of its suffixes, the
  assertion of line 368 never fails, and one round of the sliding update takes the edge of
  position \<open>p\<close> to the edge of position \<open>p + 1\<close>.
\<close>

theorem sliding_window_equivalence:
  assumes "k + stp + 1 \<le> length cs"
  shows "contig_edges k stp cs mult =
           Inr (map (\<lambda>p. first_edge (drop p cs) (k + stp) (kWordsPerEdge k stp) mult)
                  [0..<length cs - (k + stp + 1) + 1])
         \<and> (\<forall>p. p + (k + stp + 1) < length cs \<longrightarrow>
               slide_edge (k + stp) (kWordsPerEdge k stp) mult (cs ! (p + (k + stp + 1)))
                 (first_edge (drop p cs) (k + stp) (kWordsPerEdge k stp) mult) =
               Inr (first_edge (drop (Suc p) cs) (k + stp) (kWordsPerEdge k stp) mult))"
proof -
  let ?W = "kWordsPerEdge k stp"
  have W: "k + stp + 1 + 8 \<le> 16 * ?W" by (rule kWordsPerEdge_fits)
  have "slide_edge (k + stp) ?W mult (cs ! (p + (k + stp + 1)))
                 (first_edge (drop p cs) (k + stp) ?W mult) =
               Inr (first_edge (drop (Suc p) cs) (k + stp) ?W mult)"
    if "p + (k + stp + 1) < length cs" for p
    using slide_first_edge [OF W, of p cs mult] that by (simp add: add.assoc)
  with contig_edges_first_edges [OF assms, of mult] show ?thesis by blast
qed

theorem sliding_window_equivalence_witness:
  "contig_edges 3 1 [0, 1, 1, 2, 3, 0, 2, 2, 0] 7 =
     Inr [[3841982471], [960495623], [2386558983], [2743074823], [683671559]]
   \<and> map (\<lambda>p. first_edge (drop p [0, 1, 1, 2, 3, 0, 2, 2, 0]) 4 1 7) [0, 1, 2, 3, 4] =
     [[3841982471], [960495623], [2386558983], [2743074823], [683671559]]
   \<and> slide_edge 4 1 7 0 [3841982471] = Inr [960495623]"
proof -
  let ?cs = "[0, 1, 1, 2, 3, 0, 2, 2, 0] :: base list"
  have l: "3 + 1 + 1 \<le> length ?cs" by simp
  have w: "kWordsPerEdge 3 1 = 1" by (simp add: kWordsPerEdge_def)
  have u: "[0..<length ?cs - (3 + 1 + 1) + 1] = [0, 1, 2, 3, 4]" by (simp add: upt_rec)
  have f: "map (\<lambda>p. first_edge (drop p ?cs) 4 1 7) [0, 1, 2, 3, 4] =
     [[3841982471], [960495623], [2386558983], [2743074823], [683671559]]"
    by code_simp
  have f0: "first_edge ?cs 4 1 7 = [3841982471]" by code_simp
  have f1: "first_edge (drop (Suc 0) ?cs) 4 1 7 = [960495623]" by code_simp
  note t = sliding_window_equivalence [OF l, of 7]
  from t [THEN conjunct1]
  have c: "contig_edges 3 1 ?cs 7 = Inr (map (\<lambda>p. first_edge (drop p ?cs) 4 1 7) [0, 1, 2, 3, 4])"
    unfolding w u by simp
  have d: "drop 0 ?cs = ?cs" and n: "?cs ! (0 + (4 + 1)) = 0" and a: "(3 :: nat) + 1 = 4"
    by simp_all
  have "0 + (3 + 1 + 1) < length ?cs" by simp
  from t [THEN conjunct2, rule_format, of 0, OF this]
  have s: "slide_edge 4 1 7 0 [3841982471] = Inr [960495623]"
    unfolding w d a n f0 f1 .
  from c f s show ?thesis by simp
qed

section \<open>The multiplicity carried by the edges of a contig\<close>


































end
